theory Spec2Isabelle
  imports Complex_Main "HOL-Library.AList" "HOL-Library.Sublist" "HOL-Library.Log_Nat"
begin

section \<open>Video Downloader: the download orchestration engine of yt_dlp_slave.py\<close>

text \<open>
  A shallow embedding of \<^verbatim>\<open>src/downloader/yt_dlp_slave.py\<close>. Python exceptions are values
  of \<open>py_error\<close>; the collaborators of the engine (the handler, the extraction backend,
  the transcoder, the file system) are parameters or records of functions.
\<close>

datatype py_error = KeyError | ValueError | OSError | ZeroDivisionError | UnboundLocalError
  | OverflowError

subsection \<open>Progress ticks: \<^verbatim>\<open>YoutubeDLSlave._on_progress\<close>\<close>

text \<open>
  A Python number is an \<^verbatim>\<open>int\<close> or a \<^verbatim>\<open>float\<close>; a float is a rational (the value of a
  double; the two zeros are one value), an infinity with its sign, or not a number.
\<close>

datatype py_num = PyInt int | PyFloat rat | PyInf bool | PyNaN

text \<open>The comparisons \<^verbatim>\<open>x >= 0\<close> and \<^verbatim>\<open>x > 0\<close>, false of a NaN, and \<^verbatim>\<open>x == 0\<close>.\<close>

definition ge_zero :: "py_num \<Rightarrow> bool" where
  "ge_zero x = (case x of PyInt i \<Rightarrow> 0 \<le> i | PyFloat q \<Rightarrow> 0 \<le> q | PyInf positive \<Rightarrow> positive
                | PyNaN \<Rightarrow> False)"

definition gt_zero :: "py_num \<Rightarrow> bool" where
  "gt_zero x = (case x of PyInt i \<Rightarrow> 0 < i | PyFloat q \<Rightarrow> 0 < q | PyInf positive \<Rightarrow> positive
                | PyNaN \<Rightarrow> False)"

definition is_zero :: "py_num \<Rightarrow> bool" where
  "is_zero x = (case x of PyInt i \<Rightarrow> i = 0 | PyFloat q \<Rightarrow> q = 0 | _ \<Rightarrow> False)"

text \<open>To the nearest integer, a tie to the even one.\<close>

definition round_half_even :: "rat \<Rightarrow> int" where
  "round_half_even x =
     (let f = \<lfloor>x\<rfloor>; r = x - of_int f
      in if r < 1 / 2 then f
         else if 1 / 2 < r then f + 1
         else if even f then f else f + 1)"

text \<open>
  The nearest double of a rational, a tie to the even significand: the exponent \<open>e\<close> of
  a positive \<open>q\<close> has \<open>2\<^sup>e \<le> q < 2\<^sup>e\<^sup>+\<^sup>1\<close>, the doubles around \<open>q\<close> are the multiples of
  \<open>2\<^sup>e\<^sup>-\<^sup>5\<^sup>2\<close>, and of \<open>2\<^sup>-\<^sup>1\<^sup>0\<^sup>7\<^sup>4\<close> below the normal range. A result of magnitude \<open>2\<^sup>1\<^sup>0\<^sup>2\<^sup>4\<close> or more
  is too large for a double.
\<close>

definition binary_exponent :: "rat \<Rightarrow> int" where
  "binary_exponent q =
     (let e = bitlen (fst (quotient_of q)) - bitlen (snd (quotient_of q))
      in if 2 powi e \<le> q then e else e - 1)"

definition round_to_double :: "rat \<Rightarrow> rat" where
  "round_to_double q =
     (if q = 0 then 0
      else let ulp = 2 powi (max (binary_exponent \<bar>q\<bar>) (- 1022) - 52)
           in of_int (round_half_even (q / ulp)) * ulp)"

definition too_large :: "rat \<Rightarrow> bool" where
  "too_large r = (2 ^ 1024 \<le> \<bar>r\<bar>)"

text \<open>\<^verbatim>\<open>float(x)\<close>, as the division converts an \<^verbatim>\<open>int\<close> operand when the other is a float.\<close>

definition to_float :: "py_num \<Rightarrow> py_error + py_num" where
  "to_float x =
     (case x of
        PyInt i \<Rightarrow>
          if too_large (round_to_double (of_int i)) then Inl OverflowError
          else Inr (PyFloat (round_to_double (of_int i)))
      | _ \<Rightarrow> Inr x)"

text \<open>The division of two floats: a zero divisor raises, an overflow gives an infinity.\<close>

definition float_truediv :: "py_num \<Rightarrow> py_num \<Rightarrow> py_error + py_num" where
  "float_truediv a b =
     (if is_zero b then Inl ZeroDivisionError
      else case (a, b) of
             (PyFloat x, PyFloat y) \<Rightarrow>
               if too_large (round_to_double (x / y)) then Inr (PyInf (0 < x / y))
               else Inr (PyFloat (round_to_double (x / y)))
           | (PyFloat x, PyInf t) \<Rightarrow> Inr (PyFloat 0)
           | (PyInf s, PyFloat y) \<Rightarrow> Inr (PyInf (s = (0 < y)))
           | _ \<Rightarrow> Inr PyNaN)"

text \<open>
  Python's \<^verbatim>\<open>a / b\<close>. Two integers give the double nearest to the exact quotient, or
  \<^verbatim>\<open>OverflowError\<close>; otherwise both operands are converted and divided as floats.
\<close>

definition py_truediv :: "py_num \<Rightarrow> py_num \<Rightarrow> py_error + py_num" where
  "py_truediv a b =
     (case (a, b) of
        (PyInt x, PyInt y) \<Rightarrow>
          if y = 0 then Inl ZeroDivisionError
          else if too_large (round_to_double (of_int x / of_int y)) then Inl OverflowError
          else Inr (PyFloat (round_to_double (of_int x / of_int y)))
      | _ \<Rightarrow>
          (case to_float a of
             Inl e \<Rightarrow> Inl e
           | Inr x \<Rightarrow> (case to_float b of Inl e \<Rightarrow> Inl e | Inr y \<Rightarrow> float_truediv x y)))"

text \<open>Python's \<^verbatim>\<open>round(x)\<close>: an \<^verbatim>\<open>int\<close>; it raises on an infinity and on a NaN.\<close>

definition py_round :: "py_num \<Rightarrow> py_error + py_num" where
  "py_round x =
     (case x of
        PyInt i \<Rightarrow> Inr (PyInt i)
      | PyFloat q \<Rightarrow> Inr (PyInt (round_half_even q))
      | PyInf positive \<Rightarrow> Inl OverflowError
      | PyNaN \<Rightarrow> Inl ValueError)"

text \<open>
  The dictionary \<^verbatim>\<open>d\<close> a progress hook receives. Every key may be missing;
  \<^verbatim>\<open>d['status']\<close> and \<^verbatim>\<open>d['filename']\<close> raise \<^verbatim>\<open>KeyError\<close> then, the other keys are read
  with \<^verbatim>\<open>d.get\<close>, which gives \<^verbatim>\<open>None\<close> (also the value of a key that is present and
  holds \<^verbatim>\<open>None\<close>).
\<close>

record progress_tick =
  tick_status :: "string option"
  tick_filename :: "string option"
  downloaded_bytes :: "py_num option"
  total_bytes :: "py_num option"
  total_bytes_estimate :: "py_num option"
  fragment_index :: "py_num option"
  fragment_count :: "py_num option"
  tick_eta :: "py_num option"
  tick_speed :: "py_num option"

text \<open>What a tick does: no call of the handler, one call of \<^verbatim>\<open>on_progress(filename,
  progress, bytes_, bytes_total, eta, speed)\<close>, or an exception.\<close>

datatype progress_outcome =
  NoCall
  | OnProgress string py_num py_num py_num py_num py_num
  | Raised py_error

definition or_minus_one :: "py_num option \<Rightarrow> py_num" where
  "or_minus_one v = (case v of None \<Rightarrow> PyInt (- 1) | Some x \<Rightarrow> x)"

definition on_progress :: "progress_tick \<Rightarrow> progress_outcome" where
  "on_progress d =
     (case tick_status d of
        None \<Rightarrow> Raised KeyError
      | Some st \<Rightarrow>
          if st \<notin> set [''downloading'', ''finished''] then NoCall
          else
            (case tick_filename d of
               None \<Rightarrow> Raised KeyError
             | Some filename \<Rightarrow>
                 let bytes = or_minus_one (downloaded_bytes d);
                     bytes_total =
                       or_minus_one
                         (case total_bytes d of
                            None \<Rightarrow> total_bytes_estimate d
                          | Some t \<Rightarrow> Some t)
                 in if st = ''downloading'' then
                      let fragments = or_minus_one (fragment_index d);
                          fragments_total = or_minus_one (fragment_count d);
                          progress =
                            (if ge_zero bytes \<and> ge_zero bytes_total then
                               (if gt_zero bytes_total then py_truediv bytes bytes_total
                                else Inr (PyInt (- 1)))
                             else if ge_zero fragments \<and> ge_zero fragments_total then
                               (if gt_zero fragments_total
                                then py_truediv fragments fragments_total
                                else Inr (PyInt (- 1)))
                             else Inr (PyInt (- 1)))
                      in (case progress of
                            Inl e \<Rightarrow> Raised e
                          | Inr p \<Rightarrow>
                              (case py_round (or_minus_one (tick_speed d)) of
                                 Inl e \<Rightarrow> Raised e
                               | Inr speed \<Rightarrow>
                                   OnProgress filename p bytes bytes_total
                                     (or_minus_one (tick_eta d)) speed))
                    else if st = ''finished'' then
                      OnProgress filename (PyInt (- 1)) bytes bytes_total (PyInt (- 1))
                        (PyInt (- 1))
                    else Raised UnboundLocalError))"

text \<open>
  The fraction as the specification words it, a cascade: bytes over total when both are
  known and the total is positive, otherwise fragment index over fragment count when
  both are known and the count is positive, otherwise \<open>-1\<close>. A value is known when it is
  present and not negative (\<open>-1\<close> stands for unknown).
\<close>

definition known :: "py_num option \<Rightarrow> bool" where
  "known v = (case v of None \<Rightarrow> False | Some x \<Rightarrow> ge_zero x)"

definition tick_total :: "progress_tick \<Rightarrow> py_num option" where
  "tick_total d = (case total_bytes d of None \<Rightarrow> total_bytes_estimate d | Some t \<Rightarrow> Some t)"

definition spec_fraction :: "progress_tick \<Rightarrow> py_error + py_num" where
  "spec_fraction d =
     (if known (downloaded_bytes d) \<and> known (tick_total d) \<and> gt_zero (the (tick_total d))
      then py_truediv (the (downloaded_bytes d)) (the (tick_total d))
      else if known (fragment_index d) \<and> known (fragment_count d)
              \<and> gt_zero (the (fragment_count d))
      then py_truediv (the (fragment_index d)) (the (fragment_count d))
      else Inr (PyInt (- 1)))"

text \<open>The fraction the code computes: when both byte counts are known, the fragments
  are never consulted, also when the total is zero.\<close>

definition code_fraction :: "progress_tick \<Rightarrow> py_error + py_num" where
  "code_fraction d =
     (if known (downloaded_bytes d) \<and> known (tick_total d)
      then (if gt_zero (the (tick_total d))
            then py_truediv (the (downloaded_bytes d)) (the (tick_total d))
            else Inr (PyInt (- 1)))
      else if known (fragment_index d) \<and> known (fragment_count d)
              \<and> gt_zero (the (fragment_count d))
      then py_truediv (the (fragment_index d)) (the (fragment_count d))
      else Inr (PyInt (- 1)))"

definition tick0 :: progress_tick where
  "tick0 =
     \<lparr>tick_status = Some ''downloading'', tick_filename = Some ''v.mp4'',
      downloaded_bytes = Some (PyInt 0), total_bytes = Some (PyInt 0),
      total_bytes_estimate = None,
      fragment_index = Some (PyInt 3), fragment_count = Some (PyInt 10),
      tick_eta = None, tick_speed = Some (PyFloat (5 / 2))\<rparr>"

definition tick1 :: progress_tick where
  "tick1 =
     \<lparr>tick_status = Some ''downloading'', tick_filename = Some ''v.mp4'',
      downloaded_bytes = Some (PyInt 3), total_bytes = None,
      total_bytes_estimate = Some (PyFloat 4),
      fragment_index = None, fragment_count = None,
      tick_eta = Some (PyInt 7), tick_speed = Some (PyFloat (5 / 2))\<rparr>"

lemma or_minus_one_nonneg: "ge_zero (or_minus_one v) = known v"
  by (cases v) (simp_all add: known_def or_minus_one_def ge_zero_def)

lemma or_minus_one_the: "known v \<Longrightarrow> or_minus_one v = the v"
  by (cases v) (simp_all add: known_def or_minus_one_def)

lemma bitlen_powi:
  assumes "0 < n"
  shows "2 powi (bitlen n - 1) \<le> (of_int n :: rat)" and "(of_int n :: rat) < 2 powi bitlen n"
proof -
  from bitlen_bounds [OF assms]
  have l: "2 ^ nat (bitlen n - 1) \<le> n" and u: "n < 2 ^ nat (bitlen n)" by simp_all
  have pos: "1 \<le> bitlen n"
    using assms bitlen_nonneg [of n] bitlen_eq_zero_iff [of n] by linarith
  from l have "(of_int (2 ^ nat (bitlen n - 1)) :: rat) \<le> of_int n"
    by (simp only: of_int_le_iff)
  then show "2 powi (bitlen n - 1) \<le> (of_int n :: rat)"
    using pos by (simp add: power_int_def)
  from u have "(of_int n :: rat) < of_int (2 ^ nat (bitlen n))"
    by (simp only: of_int_less_iff)
  then show "(of_int n :: rat) < 2 powi bitlen n"
    using pos by (simp add: power_int_def)
qed

lemma binary_exponent_bounds:
  assumes "0 < q"
  shows "2 powi binary_exponent q \<le> q" and "q < 2 powi (binary_exponent q + 1)"
proof -
  obtain n d where nd: "quotient_of q = (n, d)" by (cases "quotient_of q")
  then have d: "0 < d" and q: "q = of_int n / of_int d"
    using quotient_of_denom_pos quotient_of_div by blast+
  have n: "0 < n" using assms d q by (simp add: zero_less_divide_iff)
  define e where "e = bitlen n - bitlen d"
  note bn = bitlen_powi [OF n] and bd = bitlen_powi [OF d]
  have dpos: "(0 :: rat) < of_int d" using d by simp
  have "2 powi (e - 1) = 2 powi (bitlen n - 1) / (2 powi bitlen d :: rat)"
    unfolding e_def by (simp add: power_int_diff power_int_add algebra_simps)
  also have "\<dots> \<le> of_int n / 2 powi bitlen d"
    using bn(1) by (simp add: divide_right_mono)
  also have "\<dots> \<le> of_int n / of_int d"
    using bd(2) dpos n by (simp add: frac_le)
  finally have lower: "2 powi (e - 1) \<le> q" by (simp add: q)
  have "of_int n / of_int d < 2 powi bitlen n / (of_int d :: rat)"
    using bn(2) dpos by (simp add: divide_strict_right_mono)
  also have "\<dots> \<le> 2 powi bitlen n / 2 powi (bitlen d - 1)"
    using bd(1) by (simp add: frac_le)
  also have "\<dots> = 2 powi (e + 1)"
    unfolding e_def by (simp add: power_int_diff power_int_add algebra_simps)
  finally have upper: "q < 2 powi (e + 1)" by (simp add: q)
  have be: "binary_exponent q = (if 2 powi e \<le> q then e else e - 1)"
    by (simp add: binary_exponent_def nd e_def Let_def)
  show "2 powi binary_exponent q \<le> q" using lower by (simp add: be)
  show "q < 2 powi (binary_exponent q + 1)" using upper by (auto simp: be)
qed

lemma round_half_even_ge: "\<lfloor>x\<rfloor> \<le> round_half_even x"
  by (simp add: round_half_even_def Let_def)

lemma round_to_double_pos:
  assumes "1 \<le> q"
  shows "0 < round_to_double q"
proof -
  define ulp :: rat where "ulp = 2 powi (max (binary_exponent \<bar>q\<bar>) (- 1022) - 52)"
  have q: "0 < q" "\<bar>q\<bar> = q" using assms by simp_all
  have ulp_pos: "0 < ulp" by (simp add: ulp_def)
  have "ulp \<le> q"
  proof (cases "- 1022 \<le> binary_exponent q")
    case True
    then have "ulp = 2 powi (binary_exponent q - 52)" by (simp add: ulp_def q max_def)
    also have "\<dots> \<le> 2 powi binary_exponent q"
      by (rule power_int_increasing) simp_all
    also have "\<dots> \<le> q" by (rule binary_exponent_bounds(1) [OF q(1)])
    finally show ?thesis .
  next
    case False
    then have "ulp = 2 powi (- 1074)" by (simp add: ulp_def q max_def)
    also have "\<dots> \<le> (2 powi 0 :: rat)"
      by (rule power_int_increasing) simp_all
    finally show ?thesis using assms by simp
  qed
  then have "1 \<le> q / ulp" using ulp_pos by (simp add: le_divide_eq)
  then have "1 \<le> \<lfloor>q / ulp\<rfloor>" by linarith
  with round_half_even_ge [of "q / ulp"] have "1 \<le> round_half_even (q / ulp)" by linarith
  then have "(0 :: rat) < of_int (round_half_even (q / ulp))" by simp
  then have "0 < of_int (round_half_even (q / ulp)) * ulp"
    using ulp_pos by (rule mult_pos_pos)
  moreover have "round_to_double q = of_int (round_half_even (q / ulp)) * ulp"
    using q by (simp add: round_to_double_def ulp_def Let_def)
  ultimately show ?thesis by simp
qed

lemma to_float_positive:
  assumes "gt_zero b" and "to_float b = Inr y"
  shows "\<not> is_zero y"
proof (cases b)
  case (PyInt i)
  with assms(1) have "1 \<le> (of_int i :: rat)" by (simp add: gt_zero_def)
  from round_to_double_pos [OF this] assms(2) PyInt show ?thesis
    by (auto simp: to_float_def is_zero_def split: if_splits)
qed (use assms in \<open>auto simp: to_float_def is_zero_def gt_zero_def\<close>)

lemma float_truediv_nonzero: "\<not> is_zero y \<Longrightarrow> float_truediv x y \<noteq> Inl e"
  by (auto simp: float_truediv_def split: py_num.splits)

lemma py_truediv_guarded:
  assumes "gt_zero b"
  shows "py_truediv a b \<noteq> Inl ZeroDivisionError"
proof (cases "\<exists>x y. a = PyInt x \<and> b = PyInt y")
  case True
  then obtain x y where "a = PyInt x" "b = PyInt y" by blast
  with assms show ?thesis by (simp add: py_truediv_def gt_zero_def)
next
  case False
  then have eq: "py_truediv a b =
      (case to_float a of
         Inl e \<Rightarrow> Inl e
       | Inr x \<Rightarrow> (case to_float b of Inl e \<Rightarrow> Inl e | Inr y \<Rightarrow> float_truediv x y))"
    by (cases a; cases b) (auto simp: py_truediv_def)
  have fa: "to_float a \<noteq> Inl ZeroDivisionError" and fb: "to_float b \<noteq> Inl ZeroDivisionError"
    by (auto simp: to_float_def split: py_num.splits)
  show ?thesis
  proof (cases "to_float a")
    case (Inl e)
    with eq fa show ?thesis by simp
  next
    case a: (Inr x)
    show ?thesis
    proof (cases "to_float b")
      case (Inl e)
      with eq a fb show ?thesis by simp
    next
      case (Inr y)
      from to_float_positive [OF assms Inr] have "\<not> is_zero y" .
      from float_truediv_nonzero [OF this] eq a Inr show ?thesis by simp
    qed
  qed
qed

lemma py_truediv_not_int: "py_truediv a b \<noteq> Inr (PyInt i)"
  by (auto simp: py_truediv_def to_float_def float_truediv_def
      split: py_num.splits sum.splits if_splits)

lemma code_fraction_guarded: "code_fraction d \<noteq> Inl ZeroDivisionError"
  by (simp add: code_fraction_def py_truediv_guarded)

lemma on_progress_downloading:
  assumes "tick_status d = Some ''downloading''" and "tick_filename d = Some f"
  shows "on_progress d =
           (case code_fraction d of
              Inl e \<Rightarrow> Raised e
            | Inr p \<Rightarrow>
                (case py_round (or_minus_one (tick_speed d)) of
                   Inl e \<Rightarrow> Raised e
                 | Inr s \<Rightarrow>
                     OnProgress f p (or_minus_one (downloaded_bytes d))
                       (or_minus_one (tick_total d)) (or_minus_one (tick_eta d)) s))"
proof -
  have "(if ge_zero (or_minus_one (downloaded_bytes d)) \<and> ge_zero (or_minus_one (tick_total d))
         then (if gt_zero (or_minus_one (tick_total d))
               then py_truediv (or_minus_one (downloaded_bytes d)) (or_minus_one (tick_total d))
               else Inr (PyInt (- 1)))
         else if ge_zero (or_minus_one (fragment_index d))
                 \<and> ge_zero (or_minus_one (fragment_count d))
         then (if gt_zero (or_minus_one (fragment_count d))
               then py_truediv (or_minus_one (fragment_index d))
                      (or_minus_one (fragment_count d))
               else Inr (PyInt (- 1)))
         else Inr (PyInt (- 1))) = code_fraction d"
    unfolding or_minus_one_nonneg code_fraction_def
    by (auto simp: or_minus_one_the)
  then show ?thesis
    unfolding on_progress_def Let_def tick_total_def [symmetric]
    by (simp only: assms) simp
qed

text \<open>
  Claim C10, as the code has it. A tick without a status raises \<^verbatim>\<open>KeyError\<close>. A tick
  whose status is neither \<open>downloading\<close> nor \<open>finished\<close> makes no call, whatever else it
  holds. A \<open>downloading\<close> or \<open>finished\<close> tick without a file name raises \<^verbatim>\<open>KeyError\<close>.
  A \<open>finished\<close> tick reports fraction, eta and speed as \<open>-1\<close>. A \<open>downloading\<close> tick
  computes: bytes over total when both are known and the total is positive; \<open>-1\<close> when
  both are known and the total is not positive (the fragments are not consulted then);
  when a byte count is unknown, fragment index over fragment count if both are known and
  the count is positive; \<open>-1\<close> in every other case. The division never raises
  \<^verbatim>\<open>ZeroDivisionError\<close>; when it raises, or rounding the speed raises, the tick raises,
  and otherwise the quotient is reported with the rounded speed.
\<close>

theorem on_progress_guarded:
  "(tick_status d = None \<longrightarrow> on_progress d = Raised KeyError)
   \<and> (\<forall>st. tick_status d = Some st \<and> st \<noteq> ''downloading'' \<and> st \<noteq> ''finished'' \<longrightarrow>
         on_progress d = NoCall)
   \<and> ((tick_status d = Some ''downloading'' \<or> tick_status d = Some ''finished'')
        \<and> tick_filename d = None \<longrightarrow> on_progress d = Raised KeyError)
   \<and> (\<forall>f. tick_status d = Some ''finished'' \<and> tick_filename d = Some f \<longrightarrow>
         on_progress d =
           OnProgress f (PyInt (- 1)) (or_minus_one (downloaded_bytes d))
             (or_minus_one (tick_total d)) (PyInt (- 1)) (PyInt (- 1)))
   \<and> (\<forall>f. tick_status d = Some ''downloading'' \<and> tick_filename d = Some f \<longrightarrow>
         (\<exists>q. (known (downloaded_bytes d) \<and> known (tick_total d)
                  \<and> gt_zero (the (tick_total d))
                \<longrightarrow> q = py_truediv (the (downloaded_bytes d)) (the (tick_total d)))
             \<and> (known (downloaded_bytes d) \<and> known (tick_total d)
                  \<and> \<not> gt_zero (the (tick_total d))
                \<longrightarrow> q = Inr (PyInt (- 1)))
             \<and> (\<not> (known (downloaded_bytes d) \<and> known (tick_total d))
                  \<and> known (fragment_index d) \<and> known (fragment_count d)
                  \<and> gt_zero (the (fragment_count d))
                \<longrightarrow> q = py_truediv (the (fragment_index d)) (the (fragment_count d)))
             \<and> (\<not> (known (downloaded_bytes d) \<and> known (tick_total d))
                  \<and> \<not> (known (fragment_index d) \<and> known (fragment_count d)
                          \<and> gt_zero (the (fragment_count d)))
                \<longrightarrow> q = Inr (PyInt (- 1)))
             \<and> q \<noteq> Inl ZeroDivisionError
             \<and> on_progress d =
                 (case q of
                    Inl e \<Rightarrow> Raised e
                  | Inr p \<Rightarrow>
                      (case py_round (or_minus_one (tick_speed d)) of
                         Inl e \<Rightarrow> Raised e
                       | Inr s \<Rightarrow>
                           OnProgress f p (or_minus_one (downloaded_bytes d))
                             (or_minus_one (tick_total d)) (or_minus_one (tick_eta d)) s))))"
proof (intro conjI allI impI)
  assume "tick_status d = None"
  then show "on_progress d = Raised KeyError" by (simp add: on_progress_def)
next
  fix st
  assume "tick_status d = Some st \<and> st \<noteq> ''downloading'' \<and> st \<noteq> ''finished''"
  then show "on_progress d = NoCall" by (simp add: on_progress_def)
next
  assume "(tick_status d = Some ''downloading'' \<or> tick_status d = Some ''finished'')
      \<and> tick_filename d = None"
  then show "on_progress d = Raised KeyError" by (auto simp: on_progress_def)
next
  fix f
  assume "tick_status d = Some ''finished'' \<and> tick_filename d = Some f"
  then show "on_progress d =
      OnProgress f (PyInt (- 1)) (or_minus_one (downloaded_bytes d))
        (or_minus_one (tick_total d)) (PyInt (- 1)) (PyInt (- 1))"
    by (simp add: on_progress_def Let_def tick_total_def)
next
  fix f
  assume a: "tick_status d = Some ''downloading'' \<and> tick_filename d = Some f"
  show "\<exists>q. (known (downloaded_bytes d) \<and> known (tick_total d)
                  \<and> gt_zero (the (tick_total d))
                \<longrightarrow> q = py_truediv (the (downloaded_bytes d)) (the (tick_total d)))
             \<and> (known (downloaded_bytes d) \<and> known (tick_total d)
                  \<and> \<not> gt_zero (the (tick_total d))
                \<longrightarrow> q = Inr (PyInt (- 1)))
             \<and> (\<not> (known (downloaded_bytes d) \<and> known (tick_total d))
                  \<and> known (fragment_index d) \<and> known (fragment_count d)
                  \<and> gt_zero (the (fragment_count d))
                \<longrightarrow> q = py_truediv (the (fragment_index d)) (the (fragment_count d)))
             \<and> (\<not> (known (downloaded_bytes d) \<and> known (tick_total d))
                  \<and> \<not> (known (fragment_index d) \<and> known (fragment_count d)
                          \<and> gt_zero (the (fragment_count d)))
                \<longrightarrow> q = Inr (PyInt (- 1)))
             \<and> q \<noteq> Inl ZeroDivisionError
             \<and> on_progress d =
                 (case q of
                    Inl e \<Rightarrow> Raised e
                  | Inr p \<Rightarrow>
                      (case py_round (or_minus_one (tick_speed d)) of
                         Inl e \<Rightarrow> Raised e
                       | Inr s \<Rightarrow>
                           OnProgress f p (or_minus_one (downloaded_bytes d))
                             (or_minus_one (tick_total d)) (or_minus_one (tick_eta d)) s))"
  proof (intro exI [of _ "code_fraction d"] conjI impI)
    show "code_fraction d \<noteq> Inl ZeroDivisionError" by (rule code_fraction_guarded)
    show "on_progress d =
        (case code_fraction d of
           Inl e \<Rightarrow> Raised e
         | Inr p \<Rightarrow>
             (case py_round (or_minus_one (tick_speed d)) of
                Inl e \<Rightarrow> Raised e
              | Inr s \<Rightarrow>
                  OnProgress f p (or_minus_one (downloaded_bytes d))
                    (or_minus_one (tick_total d)) (or_minus_one (tick_eta d)) s))"
      using a by (simp add: on_progress_downloading)
  qed (auto simp: code_fraction_def)
qed

lemma truediv_3_4: "py_truediv (PyInt 3) (PyFloat 4) = Inr (PyFloat (3 / 4))"
  by code_simp

lemma py_round_tie: "py_round (PyFloat (5 / 2)) = Inr (PyInt 2)"
  by code_simp

lemma tick1_value:
  "on_progress tick1 = OnProgress ''v.mp4'' (PyFloat (3 / 4)) (PyInt 3) (PyFloat 4) (PyInt 7) (PyInt 2)"
  by (simp add: on_progress_def tick1_def or_minus_one_def Let_def ge_zero_def gt_zero_def
      truediv_3_4 py_round_tie)

theorem on_progress_guarded_witness:
  "tick_status tick1 = Some ''downloading'' \<and> tick_filename tick1 = Some ''v.mp4''
   \<and> known (downloaded_bytes tick1) \<and> known (tick_total tick1)
   \<and> gt_zero (the (tick_total tick1))
   \<and> py_truediv (the (downloaded_bytes tick1)) (the (tick_total tick1)) = Inr (PyFloat (3 / 4))
   \<and> on_progress tick1
       = OnProgress ''v.mp4'' (PyFloat (3 / 4)) (PyInt 3) (PyFloat 4) (PyInt 7) (PyInt 2)
   \<and> on_progress (tick1\<lparr>tick_status := Some ''error'', tick_filename := None\<rparr>) = NoCall
   \<and> on_progress (tick1\<lparr>tick_status := Some ''finished''\<rparr>)
       = OnProgress ''v.mp4'' (PyInt (- 1)) (PyInt 3) (PyFloat 4) (PyInt (- 1)) (PyInt (- 1))"
proof -
  have s: "tick_status tick1 = Some ''downloading'' \<and> tick_filename tick1 = Some ''v.mp4''"
    by (simp add: tick1_def)
  have k: "known (downloaded_bytes tick1) \<and> known (tick_total tick1)
      \<and> gt_zero (the (tick_total tick1))"
    by (simp add: tick1_def known_def tick_total_def ge_zero_def gt_zero_def)
  have v: "py_truediv (the (downloaded_bytes tick1)) (the (tick_total tick1))
      = Inr (PyFloat (3 / 4))"
    by (simp add: tick1_def tick_total_def truediv_3_4)
  from on_progress_guarded [of tick1] s k v
  have "on_progress tick1 =
      (case py_round (or_minus_one (tick_speed tick1)) of
         Inl e \<Rightarrow> Raised e
       | Inr sp \<Rightarrow>
           OnProgress ''v.mp4'' (PyFloat (3 / 4)) (or_minus_one (downloaded_bytes tick1))
             (or_minus_one (tick_total tick1)) (or_minus_one (tick_eta tick1)) sp)"
    by auto
  then have 1: "on_progress tick1
      = OnProgress ''v.mp4'' (PyFloat (3 / 4)) (PyInt 3) (PyFloat 4) (PyInt 7) (PyInt 2)"
    by (simp add: tick1_def or_minus_one_def tick_total_def py_round_tie)
  from on_progress_guarded [of "tick1\<lparr>tick_status := Some ''error'', tick_filename := None\<rparr>"]
  have 2: "on_progress (tick1\<lparr>tick_status := Some ''error'', tick_filename := None\<rparr>) = NoCall"
    by simp
  from on_progress_guarded [of "tick1\<lparr>tick_status := Some ''finished''\<rparr>"]
  have 3: "on_progress (tick1\<lparr>tick_status := Some ''finished''\<rparr>)
      = OnProgress ''v.mp4'' (PyInt (- 1)) (PyInt 3) (PyFloat 4) (PyInt (- 1)) (PyInt (- 1))"
    by (simp add: tick1_def or_minus_one_def tick_total_def)
  from s k v 1 2 3 show ?thesis by simp
qed

text \<open>
  The cascade of the specification fails where both byte counts are known and the total
  is zero while the fragment counters are usable: the code reports \<open>-1\<close>, the cascade
  gives the quotient of three by ten. And a missing file name is not guarded: the tick
  raises \<^verbatim>\<open>KeyError\<close>.
\<close>

theorem on_progress_cascade_counterexample:
  "on_progress tick0 = OnProgress ''v.mp4'' (PyInt (- 1)) (PyInt 0) (PyInt 0) (PyInt (- 1)) (PyInt 2)
   \<and> spec_fraction tick0 = py_truediv (PyInt 3) (PyInt 10)
   \<and> py_truediv (PyInt 3) (PyInt 10) \<noteq> Inr (PyInt (- 1))
   \<and> on_progress (tick0\<lparr>tick_filename := None\<rparr>) = Raised KeyError"
proof -
  have "on_progress tick0
      = OnProgress ''v.mp4'' (PyInt (- 1)) (PyInt 0) (PyInt 0) (PyInt (- 1)) (PyInt 2)"
    by (simp add: on_progress_def tick0_def or_minus_one_def Let_def ge_zero_def gt_zero_def
        py_round_tie)
  moreover have "spec_fraction tick0 = py_truediv (PyInt 3) (PyInt 10)"
    by (simp add: spec_fraction_def tick0_def known_def tick_total_def ge_zero_def gt_zero_def)
  moreover have "on_progress (tick0\<lparr>tick_filename := None\<rparr>) = Raised KeyError"
    by (simp add: on_progress_def tick0_def)
  ultimately show ?thesis using py_truediv_not_int by simp
qed

subsection \<open>File names: \<^verbatim>\<open>_short_filename\<close>\<close>

text \<open>
  A Python \<^verbatim>\<open>str\<close> is a list of code points: \<^verbatim>\<open>len\<close> and slicing count code points, not
  bytes. \<^verbatim>\<open>sanitize_filename\<close> belongs to the backend library and
  \<^verbatim>\<open>sys.getfilesystemencoding()\<close> to the platform, so the sanitizer and the length of the
  encoded name are parameters.
\<close>

type_synonym ustr = "nat list"

text \<open>The code points \<^verbatim>\<open>str.isspace\<close> accepts; \<^verbatim>\<open>str.strip()\<close> removes them at both ends.\<close>

definition isspace :: "nat \<Rightarrow> bool" where
  "isspace c =
     ((9 \<le> c \<and> c \<le> 13) \<or> (28 \<le> c \<and> c \<le> 32) \<or> c = 133 \<or> c = 160 \<or> c = 5760
      \<or> (8192 \<le> c \<and> c \<le> 8202) \<or> c = 8232 \<or> c = 8233 \<or> c = 8239 \<or> c = 8287
      \<or> c = 12288)"

definition lstrip :: "ustr \<Rightarrow> ustr" where
  "lstrip s = dropWhile isspace s"

definition rstrip :: "ustr \<Rightarrow> ustr" where
  "rstrip s = rev (dropWhile isspace (rev s))"

definition strip :: "ustr \<Rightarrow> ustr" where
  "strip s = rstrip (lstrip s)"

text \<open>The character U+2026.\<close>

definition ellipsis :: ustr where
  "ellipsis = [8230]"

text \<open>The body of the loop for one \<^verbatim>\<open>i\<close>, and the loop from \<^verbatim>\<open>i\<close> down to \<open>0\<close>.\<close>

definition shortened :: "(ustr \<Rightarrow> ustr) \<Rightarrow> ustr \<Rightarrow> nat \<Rightarrow> ustr" where
  "shortened sanitize_filename name i =
     (let output = strip (take i name);
          output = (if i < length name then output @ ellipsis else output)
      in sanitize_filename output)"

fun short_filename_from ::
  "(ustr \<Rightarrow> ustr) \<Rightarrow> (ustr \<Rightarrow> nat) \<Rightarrow> ustr \<Rightarrow> int \<Rightarrow> nat \<Rightarrow> py_error + ustr" where
  "short_filename_from sanitize_filename encoded_len name len 0 =
     (let output = shortened sanitize_filename name 0
      in if int (encoded_len output) < len then Inr output else Inl ValueError)"
| "short_filename_from sanitize_filename encoded_len name len (Suc i) =
     (let output = shortened sanitize_filename name (Suc i)
      in if int (encoded_len output) < len then Inr output
         else short_filename_from sanitize_filename encoded_len name len i)"

definition short_filename ::
  "(ustr \<Rightarrow> ustr) \<Rightarrow> (ustr \<Rightarrow> nat) \<Rightarrow> ustr \<Rightarrow> int \<Rightarrow> py_error + ustr" where
  "short_filename sanitize_filename encoded_len name len =
     short_filename_from sanitize_filename encoded_len name len (length name)"

text \<open>The length of the UTF-8 encoding with the error handler \<^verbatim>\<open>ignore\<close> (a lone
  surrogate is dropped), and a sanitizer that leaves a name as it is, as
  \<^verbatim>\<open>sanitize_filename\<close> does on a name of letters and inner blanks.\<close>

definition utf8_len :: "ustr \<Rightarrow> nat" where
  "utf8_len s =
     sum_list (map (\<lambda>c. if c < 128 then 1 else if c < 2048 then 2
                         else if 55296 \<le> c \<and> c \<le> 57343 then 0
                         else if c < 65536 then 3 else 4) s)"

definition keep_name :: "ustr \<Rightarrow> ustr" where
  "keep_name s = s"

text \<open>The candidate as the specification words it: only trailing whitespace is trimmed.\<close>

definition spec_shortened :: "(ustr \<Rightarrow> ustr) \<Rightarrow> ustr \<Rightarrow> nat \<Rightarrow> ustr" where
  "spec_shortened sanitize_filename name i =
     sanitize_filename (rstrip (take i name) @ (if i < length name then ellipsis else []))"

lemma short_filename_from_Inr:
  "short_filename_from san enc name len k = Inr out \<Longrightarrow>
   \<exists>i\<le>k. out = shortened san name i \<and> int (enc out) < len
     \<and> (\<forall>j. i < j \<and> j \<le> k \<longrightarrow> \<not> int (enc (shortened san name j)) < len)"
proof (induction k)
  case 0
  then show ?case by (auto simp: Let_def split: if_splits)
next
  case (Suc k)
  show ?case
  proof (cases "int (enc (shortened san name (Suc k))) < len")
    case True
    with Suc.prems have "out = shortened san name (Suc k)" by (simp add: Let_def)
    with True show ?thesis by (intro exI [of _ "Suc k"]) auto
  next
    case False
    with Suc.prems have "short_filename_from san enc name len k = Inr out"
      by (simp add: Let_def)
    from Suc.IH [OF this] obtain i where i: "i \<le> k" "out = shortened san name i"
      "int (enc out) < len"
      "\<forall>j. i < j \<and> j \<le> k \<longrightarrow> \<not> int (enc (shortened san name j)) < len"
      by blast
    have "\<forall>j. i < j \<and> j \<le> Suc k \<longrightarrow> \<not> int (enc (shortened san name j)) < len"
      using i(4) False by (metis le_SucE)
    with i show ?thesis by (intro exI [of _ i]) auto
  qed
qed

lemma short_filename_from_Inl:
  "(short_filename_from san enc name len k = Inl e) =
   (e = ValueError \<and> (\<forall>i\<le>k. \<not> int (enc (shortened san name i)) < len))"
proof (induction k)
  case 0
  then show ?case by (auto simp: Let_def)
next
  case (Suc k)
  show ?case
  proof (cases "int (enc (shortened san name (Suc k))) < len")
    case True
    then show ?thesis by (auto simp: Let_def)
  next
    case False
    then have "(short_filename_from san enc name len (Suc k) = Inl e)
       = (short_filename_from san enc name len k = Inl e)" by (simp add: Let_def)
    also have "\<dots> = (e = ValueError \<and> (\<forall>i\<le>k. \<not> int (enc (shortened san name i)) < len))"
      by (rule Suc.IH)
    also have "\<dots> = (e = ValueError \<and> (\<forall>i\<le>Suc k. \<not> int (enc (shortened san name i)) < len))"
      using False by (metis le_SucE le_SucI)
    finally show ?thesis .
  qed
qed

text \<open>
  Claim C4, as the code has it. The result comes from a prefix of the title, trimmed of
  whitespace at both ends (not only trailing), with the ellipsis appended exactly when
  the prefix is proper, then sanitized; its encoding is strictly shorter than the budget,
  and no longer prefix fits. The function fails, with \<open>ValueError\<close>, exactly when no
  prefix fits, the empty one included.
\<close>

theorem short_filename_longest_fit:
  "(\<forall>out. short_filename san enc name len = Inr out \<longrightarrow>
      (\<exists>i\<le>length name.
          out = san (strip (take i name) @ (if i < length name then ellipsis else []))
        \<and> int (enc out) < len
        \<and> (\<forall>j. i < j \<and> j \<le> length name \<longrightarrow> \<not> int (enc (shortened san name j)) < len)))
   \<and> ((\<exists>e. short_filename san enc name len = Inl e)
        = (\<forall>i\<le>length name. \<not> int (enc (shortened san name i)) < len))
   \<and> (\<forall>e. short_filename san enc name len = Inl e \<longrightarrow> e = ValueError)"
proof (intro conjI allI impI)
  fix out
  assume "short_filename san enc name len = Inr out"
  then have "short_filename_from san enc name len (length name) = Inr out"
    by (simp add: short_filename_def)
  from short_filename_from_Inr [OF this]
  obtain i where i: "i \<le> length name" "out = shortened san name i" "int (enc out) < len"
    "\<forall>j. i < j \<and> j \<le> length name \<longrightarrow> \<not> int (enc (shortened san name j)) < len"
    by blast
  have "shortened san name i
      = san (strip (take i name) @ (if i < length name then ellipsis else []))"
    by (simp add: shortened_def Let_def)
  with i show "\<exists>i\<le>length name.
          out = san (strip (take i name) @ (if i < length name then ellipsis else []))
        \<and> int (enc out) < len
        \<and> (\<forall>j. i < j \<and> j \<le> length name \<longrightarrow> \<not> int (enc (shortened san name j)) < len)"
    by auto
next
  show "(\<exists>e. short_filename san enc name len = Inl e)
      = (\<forall>i\<le>length name. \<not> int (enc (shortened san name i)) < len)"
    by (simp add: short_filename_def short_filename_from_Inl)
next
  fix e
  assume "short_filename san enc name len = Inl e"
  then show "e = ValueError"
    by (simp add: short_filename_def short_filename_from_Inl)
qed

lemma short_filename_example:
  "short_filename keep_name utf8_len [97, 32, 98, 99] 4 = Inr [8230]"
  by (simp add: short_filename_def shortened_def strip_def lstrip_def rstrip_def isspace_def
      ellipsis_def keep_name_def utf8_len_def Let_def)

theorem short_filename_longest_fit_witness:
  "short_filename keep_name utf8_len [97, 32, 98, 99] 4 = Inr [8230]
   \<and> (\<exists>i\<le>length [97, 32, 98, 99 :: nat].
          [8230] = keep_name (strip (take i [97, 32, 98, 99])
                     @ (if i < length [97, 32, 98, 99 :: nat] then ellipsis else []))
        \<and> int (utf8_len [8230]) < 4)"
  using short_filename_longest_fit [of keep_name utf8_len "[97, 32, 98, 99]" 4]
    short_filename_example
  by blast

text \<open>
  With only trailing whitespace trimmed the claim fails on a title that starts with a
  blank: for the title \<open>" a"\<close> the code returns \<open>"a"\<close>, which is none of the three
  candidates the specification's wording allows.
\<close>

theorem short_filename_trailing_counterexample:
  "short_filename keep_name utf8_len [32, 97] 200 = Inr [97]
   \<and> map (spec_shortened keep_name [32, 97]) [0, 1, 2] = [[8230], [8230], [32, 97]]"
  by (simp add: short_filename_def shortened_def spec_shortened_def strip_def lstrip_def
      rstrip_def isspace_def ellipsis_def keep_name_def utf8_len_def Let_def)

subsection \<open>The WEBVTT repair of \<^verbatim>\<open>SubtitlesConverterPP.run\<close>\<close>

text \<open>
  \<^verbatim>\<open>re.sub(r'(?<=\n\n)([0-9.:]+ --> [0-9.:]+\n)\n(?: +\n)* *', r'\1', webvtt)\<close>, written
  out. Every quantifier of the pattern is followed by a character outside its class, so
  the greedy match is the only one and no backtracking is modelled.
\<close>

definition newline :: char where
  "newline = CHR 0x0A"

definition ts_char :: "char \<Rightarrow> bool" where
  "ts_char c = (c \<in> set ''0123456789.:'')"

text \<open>\<^verbatim>\<open>([0-9.:]+ --> [0-9.:]+\n)\<close> at the start of a text: the timestamp line and what
  follows it.\<close>

definition arrow :: string where
  "arrow = '' --> ''"

definition match_timestamp :: "string \<Rightarrow> (string \<times> string) option" where
  "match_timestamp s =
     (let a = takeWhile ts_char s; r1 = dropWhile ts_char s
      in if a = [] \<or> \<not> prefix arrow r1 then None
         else
           let r2 = drop (length arrow) r1;
               b = takeWhile ts_char r2; r3 = dropWhile ts_char r2
           in if b = [] then None
              else (case r3 of
                      [] \<Rightarrow> None
                    | c # r4 \<Rightarrow>
                        if c = newline then Some (a @ arrow @ b @ [newline], r4)
                        else None))"

text \<open>\<^verbatim>\<open>(?: +\n)* *\<close>: lines of blanks, then blanks. The flag says that blanks have been
  read since the last line end; a line end without them ends the match before it.\<close>

fun skip_blank :: "bool \<Rightarrow> string \<Rightarrow> string" where
  "skip_blank spaces [] = []"
| "skip_blank spaces (c # cs) =
     (if c = CHR '' '' then skip_blank True cs
      else if c = newline \<and> spaces then skip_blank False cs
      else c # cs)"

text \<open>The pattern after its look-behind: the timestamp line (group 1) and the text after
  the whole match.\<close>

definition match_pattern :: "string \<Rightarrow> (string \<times> string) option" where
  "match_pattern s =
     (case match_timestamp s of
        None \<Rightarrow> None
      | Some (ts, r) \<Rightarrow>
          (case r of
             [] \<Rightarrow> None
           | c # cs \<Rightarrow> if c = newline then Some (ts, skip_blank False cs) else None))"

lemma skip_blank_length: "length (skip_blank b s) \<le> length s"
  by (induction s arbitrary: b) (auto intro: le_SucI)

lemma match_timestamp_split:
  assumes m: "match_timestamp s = Some (ts, r)"
  shows "\<exists>a b. a \<noteq> [] \<and> b \<noteq> [] \<and> list_all ts_char a \<and> list_all ts_char b
           \<and> ts = a @ arrow @ b @ [newline] \<and> s = ts @ r"
proof -
  define a where "a = takeWhile ts_char s"
  define r1 where "r1 = dropWhile ts_char s"
  define r2 where "r2 = drop (length arrow) r1"
  define b where "b = takeWhile ts_char r2"
  define r3 where "r3 = dropWhile ts_char r2"
  have eq: "match_timestamp s =
      (if a = [] \<or> \<not> prefix arrow r1 then None
       else if b = [] then None
       else (case r3 of [] \<Rightarrow> None
             | c # r4 \<Rightarrow> if c = newline then Some (a @ arrow @ b @ [newline], r4) else None))"
    by (simp only: match_timestamp_def Let_def a_def r1_def r2_def b_def r3_def)
  from m eq have a: "a \<noteq> []" and p: "prefix arrow r1" and b: "b \<noteq> []"
    by (simp_all split: if_splits)
  from m eq a p b have r3: "r3 = newline # r" and ts: "ts = a @ arrow @ b @ [newline]"
    by (simp_all split: list.splits if_splits)
  from p have "r1 = arrow @ r2"
    unfolding r2_def by (metis append_eq_conv_conj prefix_def)
  moreover have "r2 = b @ r3" by (simp add: b_def r3_def)
  moreover have "s = a @ r1" by (simp add: a_def r1_def)
  ultimately have "s = ts @ r" using r3 ts by simp
  moreover have "list_all ts_char a" "list_all ts_char b"
    by (simp_all add: a_def b_def list_all_iff) (metis set_takeWhileD)+
  ultimately show ?thesis using a b ts by blast
qed

lemma match_pattern_split:
  assumes "match_pattern s = Some (ts, rest)"
  shows "\<exists>cs. match_timestamp s = Some (ts, newline # cs) \<and> rest = skip_blank False cs"
  using assms by (auto simp: match_pattern_def split: option.splits list.splits if_splits)

lemma match_pattern_length:
  assumes "match_pattern s = Some (ts, rest)"
  shows "length ts + length rest < length s"
proof -
  from match_pattern_split [OF assms] obtain cs
    where m: "match_timestamp s = Some (ts, newline # cs)" and rest: "rest = skip_blank False cs"
    by blast
  from match_timestamp_split [OF m] have "length s = length ts + Suc (length cs)" by auto
  with rest skip_blank_length [of False cs] show ?thesis by simp
qed

text \<open>
  \<^verbatim>\<open>re.sub\<close>: the text is scanned from left to right, \<open>behind\<close> is the text already
  passed (reversed), which the look-behind reads; a match is replaced by its group 1
  and the scan goes on after the match.
\<close>

function sub_webvtt :: "string \<Rightarrow> string \<Rightarrow> string" where
  "sub_webvtt behind [] = []"
| "sub_webvtt behind (c # cs) =
     (if take 2 behind = [newline, newline] then
        (case match_pattern (c # cs) of
           Some (ts, rest) \<Rightarrow>
             ts @ sub_webvtt (rev (take (length (c # cs) - length rest) (c # cs)) @ behind) rest
         | None \<Rightarrow> c # sub_webvtt (c # behind) cs)
      else c # sub_webvtt (c # behind) cs)"
  by pat_completeness auto
termination
proof (relation "measure (\<lambda>(behind, s). length s)")
  show "wf (measure (\<lambda>(behind, s). length s))" by simp
next
  fix behind :: string and c cs x2 ts rest
  assume "match_pattern (c # cs) = Some x2" and "(ts, rest) = x2"
  then have "match_pattern (c # cs) = Some (ts, rest)" by simp
  from match_pattern_length [OF this]
  show "((rev (take (length (c # cs) - length rest) (c # cs)) @ behind, rest), behind, c # cs)
        \<in> measure (\<lambda>(behind, s). length s)"
    by simp
qed simp_all

definition fix_webvtt :: "string \<Rightarrow> string" where
  "fix_webvtt webvtt = sub_webvtt [] webvtt"

text \<open>Two texts: a timestamp followed by two empty lines, and one followed by an empty
  line and a line of blanks.\<close>

definition cue0 :: string where
  "cue0 = [newline, newline] @ ''00:01 --> 00:02'' @ [newline, newline, newline] @ ''foo''"
definition cue1 :: string where
  "cue1 = [newline, newline] @ ''00:01 --> 00:02'' @ [newline, newline] @ ''  '' @ [newline] @ '' foo''"

definition cue0_fixed :: string where
  "cue0_fixed = [newline, newline] @ ''00:01 --> 00:02'' @ [newline, newline] @ ''foo''"
definition cue0_fixed2 :: string where
  "cue0_fixed2 = [newline, newline] @ ''00:01 --> 00:02'' @ [newline] @ ''foo''"

text \<open>The pattern of the specification, stated on the text: a blank line, a timestamp line,
  a blank line.\<close>

definition timestamp_line :: "string \<Rightarrow> bool" where
  "timestamp_line l =
     (\<exists>a b. a \<noteq> [] \<and> b \<noteq> [] \<and> list_all ts_char a \<and> list_all ts_char b
            \<and> l = a @ arrow @ b @ [newline])"

definition broken_cue :: "string \<Rightarrow> bool" where
  "broken_cue t =
     (\<exists>pre l post. timestamp_line l \<and> t = pre @ [newline, newline] @ l @ [newline] @ post)"

text \<open>The same during the scan, with the text already passed.\<close>

definition occurs :: "string \<Rightarrow> string \<Rightarrow> bool" where
  "occurs behind s =
     (\<exists>p l post. timestamp_line l \<and> s = p @ l @ newline # post
                 \<and> take 2 (rev p @ behind) = [newline, newline])"

lemma arrow_Cons: "arrow = CHR '' '' # ''--> ''"
  by (simp add: arrow_def)

lemma not_ts_char_space: "\<not> ts_char (CHR '' '')"
  by (simp add: ts_char_def)

lemma not_ts_char_newline: "\<not> ts_char newline"
  by (simp add: ts_char_def newline_def)

lemma takeWhile_stop:
  "list_all P xs \<Longrightarrow> \<not> P y \<Longrightarrow> takeWhile P (xs @ y # ys) = xs"
  by (induction xs) simp_all

lemma dropWhile_stop:
  "list_all P xs \<Longrightarrow> \<not> P y \<Longrightarrow> dropWhile P (xs @ y # ys) = y # ys"
  by (induction xs) simp_all

lemma match_timestamp_complete:
  assumes "timestamp_line l"
  shows "match_timestamp (l @ r) = Some (l, r)"
proof -
  from assms obtain a b where a: "a \<noteq> []" and b: "b \<noteq> []"
    and ta: "list_all ts_char a" and tb: "list_all ts_char b"
    and l: "l = a @ arrow @ b @ [newline]"
    by (auto simp: timestamp_line_def)
  have s: "a @ arrow @ b @ newline # r = a @ CHR '' '' # (''--> '' @ b @ newline # r)"
    by (simp add: arrow_Cons)
  have t1: "takeWhile ts_char (a @ arrow @ b @ newline # r) = a"
    unfolding s by (rule takeWhile_stop [OF ta not_ts_char_space])
  have d1: "dropWhile ts_char (a @ arrow @ b @ newline # r) = arrow @ b @ newline # r"
    unfolding s by (simp add: dropWhile_stop [OF ta not_ts_char_space] arrow_Cons)
  have t2: "takeWhile ts_char (b @ newline # r) = b"
    by (rule takeWhile_stop [OF tb not_ts_char_newline])
  have d2: "dropWhile ts_char (b @ newline # r) = newline # r"
    by (rule dropWhile_stop [OF tb not_ts_char_newline])
  show ?thesis
    by (simp add: match_timestamp_def Let_def t1 d1 t2 d2 a b l)
qed

lemma match_pattern_complete:
  assumes "timestamp_line l"
  shows "match_pattern (l @ newline # r) = Some (l, skip_blank False r)"
  by (simp add: match_pattern_def match_timestamp_complete [OF assms])

lemma match_pattern_sound:
  assumes "match_pattern s = Some (ts, rest)"
  shows "timestamp_line ts \<and> (\<exists>cs. s = ts @ newline # cs \<and> rest = skip_blank False cs)"
proof -
  from match_pattern_split [OF assms] obtain cs
    where m: "match_timestamp s = Some (ts, newline # cs)" and rest: "rest = skip_blank False cs"
    by blast
  from match_timestamp_split [OF m] have "timestamp_line ts" and "s = ts @ newline # cs"
    by (auto simp: timestamp_line_def)
  with rest show ?thesis by blast
qed

lemma sub_webvtt_match:
  assumes "take 2 behind = [newline, newline]" and "match_pattern (c # cs) = Some (ts, rest)"
  shows "sub_webvtt behind (c # cs) =
           ts @ sub_webvtt (rev (take (length (c # cs) - length rest) (c # cs)) @ behind) rest"
  using assms by simp

lemma sub_webvtt_skip:
  assumes "\<not> (take 2 behind = [newline, newline] \<and> match_pattern (c # cs) \<noteq> None)"
  shows "sub_webvtt behind (c # cs) = c # sub_webvtt (c # behind) cs"
  using assms by (cases "match_pattern (c # cs)") auto

lemma sub_webvtt_length: "length (sub_webvtt behind s) \<le> length s"
proof (induction "length s" arbitrary: s behind rule: less_induct)
  case less
  show ?case
  proof (cases s)
    case Nil
    then show ?thesis by simp
  next
    case (Cons c cs)
    show ?thesis
    proof (cases "take 2 behind = [newline, newline] \<and> match_pattern (c # cs) \<noteq> None")
      case True
      then obtain ts rest where m: "match_pattern (c # cs) = Some (ts, rest)" by auto
      from match_pattern_length [OF m] have len: "length ts + length rest < length s"
        by (simp add: Cons)
      then have "length rest < length s" by simp
      from less [OF this] have
        "length (sub_webvtt (rev (take (length (c # cs) - length rest) (c # cs)) @ behind) rest)
         \<le> length rest" .
      with len show ?thesis
        using True m by (simp only: Cons sub_webvtt_match [OF conjunct1 [OF True] m]) simp
    next
      case False
      have "length cs < length s" by (simp add: Cons)
      from less [OF this] have "length (sub_webvtt (c # behind) cs) \<le> length cs" .
      then show ?thesis
        by (simp only: Cons sub_webvtt_skip [OF False]) simp
    qed
  qed
qed

lemma occurs_Cons:
  assumes "occurs behind (c # cs)"
    and "\<not> (take 2 behind = [newline, newline] \<and> match_pattern (c # cs) \<noteq> None)"
  shows "occurs (c # behind) cs"
proof -
  from assms(1) obtain p l post where l: "timestamp_line l"
    and s: "c # cs = p @ l @ newline # post"
    and t: "take 2 (rev p @ behind) = [newline, newline]"
    by (auto simp: occurs_def)
  show ?thesis
  proof (cases p)
    case Nil
    with s t have "take 2 behind = [newline, newline]" and "c # cs = l @ newline # post"
      by simp_all
    with match_pattern_complete [OF l, of post] assms(2) show ?thesis by simp
  next
    case (Cons c' p')
    with s have "c' = c" and "cs = p' @ l @ newline # post" by simp_all
    moreover from t Cons \<open>c' = c\<close> have "take 2 (rev p' @ c # behind) = [newline, newline]"
      by simp
    ultimately show ?thesis using l by (auto simp: occurs_def)
  qed
qed

lemma occurs_tail: "occurs (c # behind) cs \<Longrightarrow> occurs behind (c # cs)"
proof -
  assume "occurs (c # behind) cs"
  then obtain p l post where l: "timestamp_line l" and s: "cs = p @ l @ newline # post"
    and t: "take 2 (rev p @ c # behind) = [newline, newline]"
    by (auto simp: occurs_def)
  have "c # cs = (c # p) @ l @ newline # post" using s by simp
  moreover have "take 2 (rev (c # p) @ behind) = [newline, newline]" using t by simp
  ultimately show ?thesis using l unfolding occurs_def by blast
qed

lemma occurs_head:
  assumes "take 2 behind = [newline, newline]" and "match_pattern s = Some (ts, rest)"
  shows "occurs behind s"
proof -
  from match_pattern_sound [OF assms(2)] obtain cs where "timestamp_line ts"
    and "s = [] @ ts @ newline # cs" by auto
  with assms(1) show ?thesis unfolding occurs_def by (metis append_Nil rev.simps(1))
qed

lemma sub_webvtt_unchanged: "\<not> occurs behind s \<Longrightarrow> sub_webvtt behind s = s"
proof (induction s arbitrary: behind)
  case Nil
  then show ?case by simp
next
  case (Cons c cs)
  have no: "\<not> (take 2 behind = [newline, newline] \<and> match_pattern (c # cs) \<noteq> None)"
    using Cons.prems occurs_head by fastforce
  have "\<not> occurs (c # behind) cs" using Cons.prems occurs_tail by blast
  from Cons.IH [OF this] show ?case
    by (simp only: sub_webvtt_skip [OF no])
qed

lemma sub_webvtt_shrinks: "occurs behind s \<Longrightarrow> length (sub_webvtt behind s) < length s"
proof (induction s arbitrary: behind)
  case Nil
  then show ?case by (auto simp: occurs_def)
next
  case (Cons c cs)
  show ?case
  proof (cases "take 2 behind = [newline, newline] \<and> match_pattern (c # cs) \<noteq> None")
    case True
    then obtain ts rest where m: "match_pattern (c # cs) = Some (ts, rest)" by auto
    from match_pattern_length [OF m] have len: "length ts + length rest < length (c # cs)" .
    have "length (sub_webvtt (rev (take (length (c # cs) - length rest) (c # cs)) @ behind) rest)
         \<le> length rest" by (rule sub_webvtt_length)
    with len show ?thesis
      by (simp only: sub_webvtt_match [OF conjunct1 [OF True] m]) simp
  next
    case False
    from occurs_Cons [OF Cons.prems False] have "occurs (c # behind) cs" .
    from Cons.IH [OF this] show ?thesis
      by (simp only: sub_webvtt_skip [OF False]) simp
  qed
qed

lemma broken_cue_occurs: "broken_cue t = occurs [] t"
proof
  assume "broken_cue t"
  then obtain pre l post where l: "timestamp_line l"
    and t: "t = pre @ [newline, newline] @ l @ [newline] @ post"
    by (auto simp: broken_cue_def)
  have "t = (pre @ [newline, newline]) @ l @ newline # post" using t by simp
  moreover have "take 2 (rev (pre @ [newline, newline]) @ []) = [newline, newline]" by simp
  ultimately show "occurs [] t" using l unfolding occurs_def by blast
next
  assume "occurs [] t"
  then obtain p l post where l: "timestamp_line l" and t: "t = p @ l @ newline # post"
    and k: "take 2 (rev p) = [newline, newline]"
    by (auto simp: occurs_def)
  from k obtain q where "rev p = newline # newline # q"
    by (cases "rev p"; cases "tl (rev p)") auto
  then have "p = rev q @ [newline, newline]"
    by (metis append.simps(1) append.simps(2) append_assoc rev.simps(2) rev_rev_ident)
  with t have "t = rev q @ [newline, newline] @ l @ [newline] @ post" by simp
  with l show "broken_cue t" unfolding broken_cue_def by blast
qed

lemma fix_webvtt_fixpoint: "(fix_webvtt t = t) = (\<not> broken_cue t)"
proof (cases "broken_cue t")
  case True
  then have "length (fix_webvtt t) < length t"
    by (simp add: fix_webvtt_def broken_cue_occurs sub_webvtt_shrinks)
  then have "fix_webvtt t \<noteq> t" by auto
  with True show ?thesis by simp
next
  case False
  then show ?thesis
    by (simp add: fix_webvtt_def broken_cue_occurs sub_webvtt_unchanged)
qed

text \<open>
  Claim C8, as the code has it. The repair leaves a text unchanged exactly when the text
  has no blank line, timestamp line, blank line in a row, and makes it strictly shorter
  otherwise; so
  repairing twice gives the same as repairing once exactly when the once-repaired text
  has no such pattern left. It is not idempotent on every text.
\<close>

theorem fix_webvtt_twice:
  "(fix_webvtt (fix_webvtt t) = fix_webvtt t) = (\<not> broken_cue (fix_webvtt t))
   \<and> (fix_webvtt t = t) = (\<not> broken_cue t)
   \<and> (broken_cue t \<longrightarrow> length (fix_webvtt t) < length t)
   \<and> (\<not> broken_cue t \<longrightarrow> fix_webvtt t = t)
   \<and> length (fix_webvtt t) \<le> length t"
proof (intro conjI impI)
  show "(fix_webvtt (fix_webvtt t) = fix_webvtt t) = (\<not> broken_cue (fix_webvtt t))"
    by (rule fix_webvtt_fixpoint)
  show "(fix_webvtt t = t) = (\<not> broken_cue t)"
    by (rule fix_webvtt_fixpoint)
  show "length (fix_webvtt t) < length t" if "broken_cue t"
    using that by (simp add: fix_webvtt_def broken_cue_occurs sub_webvtt_shrinks)
  show "fix_webvtt t = t" if "\<not> broken_cue t"
    using that by (simp add: fix_webvtt_fixpoint)
  show "length (fix_webvtt t) \<le> length t"
    by (simp add: fix_webvtt_def sub_webvtt_length)
qed

lemma fix_cue0: "fix_webvtt cue0 = cue0_fixed"
  by (simp add: fix_webvtt_def cue0_def cue0_fixed_def match_pattern_def match_timestamp_def
      arrow_def ts_char_def newline_def Let_def)

lemma fix_cue0_fixed: "fix_webvtt cue0_fixed = cue0_fixed2"
  by (simp add: fix_webvtt_def cue0_fixed2_def cue0_fixed_def match_pattern_def
      match_timestamp_def arrow_def ts_char_def newline_def Let_def)

lemma fix_cue0_fixed2: "fix_webvtt cue0_fixed2 = cue0_fixed2"
  by (simp add: fix_webvtt_def cue0_fixed2_def match_pattern_def match_timestamp_def
      arrow_def ts_char_def newline_def Let_def)

lemma fix_cue1: "fix_webvtt cue1 = cue0_fixed2"
  by (simp add: fix_webvtt_def cue1_def cue0_fixed2_def match_pattern_def match_timestamp_def
      arrow_def ts_char_def newline_def Let_def)

theorem fix_webvtt_twice_witness:
  "broken_cue cue0 \<and> length (fix_webvtt cue0) < length cue0
   \<and> \<not> broken_cue (fix_webvtt cue1)
   \<and> fix_webvtt (fix_webvtt cue1) = fix_webvtt cue1"
proof -
  have "fix_webvtt cue0 \<noteq> cue0"
    by (simp add: fix_cue0) (simp add: cue0_def cue0_fixed_def)
  with fix_webvtt_twice [of cue0]
  have "broken_cue cue0 \<and> length (fix_webvtt cue0) < length cue0" by blast
  moreover have "fix_webvtt (fix_webvtt cue1) = fix_webvtt cue1"
    by (simp add: fix_cue1 fix_cue0_fixed2)
  with fix_webvtt_twice [of cue1]
  have "\<not> broken_cue (fix_webvtt cue1) \<and> fix_webvtt (fix_webvtt cue1) = fix_webvtt cue1"
    by simp
  ultimately show ?thesis by simp
qed

text \<open>
  A timestamp line followed by two empty lines: the first repair removes one of them, the
  second repair the other, so the second application changes the text again.
\<close>

theorem fix_webvtt_idempotent_counterexample:
  "fix_webvtt cue0 = cue0_fixed \<and> fix_webvtt (fix_webvtt cue0) = cue0_fixed2
   \<and> cue0_fixed2 \<noteq> cue0_fixed"
  by (simp add: fix_cue0 fix_cue0_fixed) (simp add: cue0_fixed_def cue0_fixed2_def)

subsection \<open>Authentication requests: \<^verbatim>\<open>YoutubeDLSlave.error\<close> and \<^verbatim>\<open>_load_playlist\<close>\<close>

text \<open>
  The slave object is a record of the fields that the error callback and the session
  runner read and write. The calls made to the handler and to the backend are logged in
  \<open>events\<close>, in order; the handler is the record of the answers it gives. The job options
  keep the keys that the callback and the controller assign. An error line is a string of
  characters with code points below 256. A word character of the pattern
  \<^verbatim>\<open>\b[Ss]ign in\b|--username\<close> is the underscore or a character that \<^verbatim>\<open>str.isalnum\<close>
  accepts: the ASCII letters and digits and, above them, the feminine and masculine
  ordinal indicators, the superscript digits, the micro sign, the vulgar fractions and
  the letters from U+00C0 to U+00FF without the multiplication and the division sign.
  The callback returns, raises \<^verbatim>\<open>RetryException\<close> or
  leaves through \<^verbatim>\<open>sys.exit\<close>; the signal is returned with the new state.

  The backend is a function from the log so far and the options of the attempt to the
  error lines it reports, in order, and the info dictionaries it leaves behind. The
  first line that does not return ends the attempt, as an exception leaves
  \<^verbatim>\<open>ydl.download\<close>. The loop of \<^verbatim>\<open>_load_playlist\<close> runs again after a retry signal; it
  terminates because a retry signal clears \<open>allow_authentication_request\<close>, which is
  never set again.
\<close>

record options =
  opt_username :: "string option"
  opt_password :: "string option"
  opt_videopassword :: "string option"
  opt_playlistend :: "nat option"
  opt_noplaylist :: "bool option"
  opt_writeinfojson :: bool
  opt_skip_download :: bool

datatype event =
  LoginRequest
  | PasswordRequest
  | PlaylistRequest
  | OnError string
  | LoadPlaylist
  | YdlDownload options

record slave =
  allow_authentication_request :: bool
  skip_authentication :: bool
  skipped_count :: nat
  ydl_opts :: options
  events :: "event list"

record handler =
  on_login_request :: "string \<times> string"
  on_password_request :: string
  on_playlist_request :: bool

datatype signal = Returned | RetryException | SystemExit

definition is_word :: "char \<Rightarrow> bool" where
  "is_word c =
     (let n = (of_char c :: nat)
      in (48 \<le> n \<and> n \<le> 57) \<or> (65 \<le> n \<and> n \<le> 90) \<or> n = 95 \<or> (97 \<le> n \<and> n \<le> 122)
         \<or> n = 170 \<or> n = 178 \<or> n = 179 \<or> n = 181 \<or> n = 185 \<or> n = 186
         \<or> (188 \<le> n \<and> n \<le> 190) \<or> (192 \<le> n \<and> n \<le> 214)
         \<or> (216 \<le> n \<and> n \<le> 246) \<or> (248 \<le> n \<and> n \<le> 255))"

fun contains :: "string \<Rightarrow> string \<Rightarrow> bool" where
  "contains sub [] = (sub = [])"
| "contains sub (c # cs) = (prefix sub (c # cs) \<or> contains sub cs)"

definition boundary_before :: "char option \<Rightarrow> bool" where
  "boundary_before prev = (case prev of None \<Rightarrow> True | Some p \<Rightarrow> \<not> is_word p)"

definition boundary_after :: "string \<Rightarrow> bool" where
  "boundary_after rest = (case rest of [] \<Rightarrow> True | c # _ \<Rightarrow> \<not> is_word c)"

fun sign_in_from :: "char option \<Rightarrow> string \<Rightarrow> bool" where
  "sign_in_from prev [] = False"
| "sign_in_from prev (c # cs) =
     ((boundary_before prev
        \<and> (prefix ''Sign in'' (c # cs) \<or> prefix ''sign in'' (c # cs))
        \<and> boundary_after (drop 7 (c # cs)))
      \<or> sign_in_from (Some c) cs)"

definition sign_in_required :: "string \<Rightarrow> bool" where
  "sign_in_required msg = (sign_in_from None msg \<or> contains ''--username'' msg)"

definition video_password_required :: "string \<Rightarrow> bool" where
  "video_password_required msg = contains ''--video-password'' msg"

definition xattr_unsupported :: "string \<Rightarrow> bool" where
  "xattr_unsupported msg =
     contains ''This filesystem doesn't support extended attributes.'' msg"

definition error :: "handler \<Rightarrow> string \<Rightarrow> slave \<Rightarrow> signal \<times> slave" where
  "error h msg s =
     (if allow_authentication_request s \<and> sign_in_required msg then
        (if skip_authentication s then
           (Returned, s\<lparr>skipped_count := skipped_count s + 1\<rparr>)
         else
           let (user, pw) = on_login_request h;
               s1 = s\<lparr>events := events s @ [LoginRequest]\<rparr>
           in if user = [] \<and> pw = [] then
                (Returned, s1\<lparr>skip_authentication := True,
                                skipped_count := skipped_count s1 + 1\<rparr>)
              else
                (RetryException,
                 s1\<lparr>ydl_opts := (ydl_opts s1)\<lparr>opt_username := Some user,
                                                  opt_password := Some pw\<rparr>,
                     allow_authentication_request := False\<rparr>))
      else if allow_authentication_request s \<and> video_password_required msg then
        (if skip_authentication s then
           (Returned, s\<lparr>skipped_count := skipped_count s + 1\<rparr>)
         else
           let pw = on_password_request h;
               s1 = s\<lparr>events := events s @ [PasswordRequest]\<rparr>
           in if pw = [] then
                (Returned, s1\<lparr>skip_authentication := True,
                                skipped_count := skipped_count s1 + 1\<rparr>)
              else
                (RetryException,
                 s1\<lparr>ydl_opts := (ydl_opts s1)\<lparr>opt_videopassword := Some pw\<rparr>,
                     allow_authentication_request := False\<rparr>))
      else if xattr_unsupported msg then (Returned, s)
      else (SystemExit, s\<lparr>events := events s @ [OnError msg]\<rparr>))"

fun run_lines :: "handler \<Rightarrow> string list \<Rightarrow> slave \<Rightarrow> signal \<times> slave" where
  "run_lines h [] s = (Returned, s)"
| "run_lines h (msg # msgs) s =
     (case error h msg s of
        (Returned, s') \<Rightarrow> run_lines h msgs s'
      | (sg, s') \<Rightarrow> (sg, s'))"

definition attempt_opts :: "slave \<Rightarrow> options" where
  "attempt_opts s = (ydl_opts s)\<lparr>opt_writeinfojson := True, opt_skip_download := True\<rparr>"

definition invoke ::
  "handler \<Rightarrow> (event list \<Rightarrow> options \<Rightarrow> string list \<times> 'i list) \<Rightarrow> slave
   \<Rightarrow> (signal \<times> slave) \<times> 'i list" where
  "invoke h backend s =
     (let ydl_opts = attempt_opts s;
          run = backend (events s) ydl_opts;
          s1 = s\<lparr>events := events s @ [YdlDownload ydl_opts]\<rparr>
      in (run_lines h (fst run) s1, snd run))"

lemma error_cases:
  "error h msg s = (sg, s') \<Longrightarrow>
     (sg = RetryException \<longrightarrow> allow_authentication_request s \<and> \<not> allow_authentication_request s'
        \<and> \<not> skip_authentication s)
   \<and> (allow_authentication_request s' \<longrightarrow> allow_authentication_request s)
   \<and> skipped_count s \<le> skipped_count s'"
  by (auto simp: error_def Let_def split: if_splits prod.splits)

lemma run_lines_cases:
  "run_lines h msgs s = (sg, s') \<Longrightarrow>
     (sg = RetryException \<longrightarrow> allow_authentication_request s \<and> \<not> allow_authentication_request s')
   \<and> (allow_authentication_request s' \<longrightarrow> allow_authentication_request s)
   \<and> skipped_count s \<le> skipped_count s'"
proof (induction msgs arbitrary: s)
  case Nil
  then show ?case by simp
next
  case (Cons m ms)
  obtain sg1 s1 where e: "error h m s = (sg1, s1)" by (cases "error h m s")
  note c = error_cases [OF e]
  show ?case
  proof (cases "sg1 = Returned")
    case True
    with Cons.prems e have "run_lines h ms s1 = (sg, s')" by simp
    from Cons.IH [OF this] c show ?thesis by auto
  next
    case False
    with Cons.prems e have "sg = sg1" "s' = s1" by (cases sg1; simp)+
    with c show ?thesis by simp
  qed
qed

lemma invoke_retry:
  assumes "invoke h backend s = ((RetryException, s2), infos)"
  shows "allow_authentication_request s \<and> \<not> allow_authentication_request s2"
proof -
  from assms have "run_lines h (fst (backend (events s) (attempt_opts s)))
      (s\<lparr>events := events s @ [YdlDownload (attempt_opts s)]\<rparr>) = (RetryException, s2)"
    by (simp add: invoke_def Let_def)
  from run_lines_cases [OF this] show ?thesis by simp
qed

function load_playlist_loop ::
  "handler \<Rightarrow> (event list \<Rightarrow> options \<Rightarrow> string list \<times> 'i list) \<Rightarrow> slave
   \<Rightarrow> ('i list \<times> nat) option \<times> slave" where
  "load_playlist_loop h backend s =
     (let saved_skipped_count = skipped_count s;
          r = invoke h backend s
      in if fst (fst r) = RetryException then load_playlist_loop h backend (snd (fst r))
         else if fst (fst r) = SystemExit then (None, snd (fst r))
         else (Some (snd r, skipped_count (snd (fst r)) - saved_skipped_count), snd (fst r)))"
  by pat_completeness auto
termination
proof (relation "measure (\<lambda>(h, backend, s). if allow_authentication_request s then 1 else 0)")
  show "wf (measure (\<lambda>(h, backend :: event list \<Rightarrow> options \<Rightarrow> string list \<times> 'i list, s).
      if allow_authentication_request s then 1 else (0::nat)))" by simp
next
  fix h :: handler and backend :: "event list \<Rightarrow> options \<Rightarrow> string list \<times> 'i list"
    and s :: slave and x xa
  assume "x = skipped_count s" and "xa = invoke h backend s" and "fst (fst xa) = RetryException"
  then have "invoke h backend s = ((RetryException, snd (fst xa)), snd xa)"
    by (metis prod.collapse)
  from invoke_retry [OF this]
  show "((h, backend, snd (fst xa)), h, backend, s)
      \<in> measure (\<lambda>(h, backend, s). if allow_authentication_request s then 1 else 0)"
    by simp
qed

declare load_playlist_loop.simps [simp del]

definition load_playlist ::
  "handler \<Rightarrow> (event list \<Rightarrow> options \<Rightarrow> string list \<times> 'i list) \<Rightarrow> slave
   \<Rightarrow> ('i list \<times> nat) option \<times> slave" where
  "load_playlist h backend s =
     load_playlist_loop h backend (s\<lparr>events := events s @ [LoadPlaylist]\<rparr>)"

lemma error_declined:
  assumes "allow_authentication_request s" and "skip_authentication s"
    and "error h msg s = (sg, s')"
  shows "sg \<noteq> RetryException
       \<and> (sg = Returned \<longrightarrow> allow_authentication_request s' \<and> skip_authentication s'
            \<and> events s' = events s \<and> ydl_opts s' = ydl_opts s)
       \<and> (sign_in_required msg \<or> video_password_required msg \<longrightarrow>
            sg = Returned \<and> s' = s\<lparr>skipped_count := skipped_count s + 1\<rparr>)"
  using assms by (auto simp: error_def split: if_splits)

lemma run_lines_declined:
  assumes "allow_authentication_request s" and "skip_authentication s"
    and "run_lines h msgs s = (sg, s')"
  shows "sg \<noteq> RetryException
       \<and> (sg = Returned \<longrightarrow> allow_authentication_request s' \<and> skip_authentication s'
            \<and> events s' = events s \<and> ydl_opts s' = ydl_opts s)"
  using assms
proof (induction msgs arbitrary: s)
  case Nil
  then show ?case by auto
next
  case (Cons m ms)
  obtain sg1 s1 where e: "error h m s = (sg1, s1)" by (cases "error h m s")
  note c = error_declined [OF Cons.prems(1,2) e]
  show ?case
  proof (cases "sg1 = Returned")
    case True
    with Cons.prems(3) e have r: "run_lines h ms s1 = (sg, s')" by simp
    from c True have "allow_authentication_request s1" "skip_authentication s1"
      and "events s1 = events s" and "ydl_opts s1 = ydl_opts s" by simp_all
    with Cons.IH [OF _ _ r] show ?thesis by simp
  next
    case False
    with Cons.prems(3) e have "sg = sg1" by (cases sg1; simp)
    with c False show ?thesis by simp
  qed
qed

fun downloads :: "event list \<Rightarrow> options list" where
  "downloads [] = []"
| "downloads (e # es) = (case e of YdlDownload opts \<Rightarrow> opts # downloads es | _ \<Rightarrow> downloads es)"

definition session_event :: "options \<Rightarrow> event \<Rightarrow> bool" where
  "session_event opts e =
     (case e of
        LoginRequest \<Rightarrow> True
      | PasswordRequest \<Rightarrow> True
      | OnError _ \<Rightarrow> True
      | YdlDownload o' \<Rightarrow>
          opt_playlistend o' = opt_playlistend opts \<and> opt_noplaylist o' = opt_noplaylist opts
      | LoadPlaylist \<Rightarrow> False
      | PlaylistRequest \<Rightarrow> False)"

definition same_extent :: "options \<Rightarrow> options \<Rightarrow> bool" where
  "same_extent a b =
     (opt_playlistend a = opt_playlistend b \<and> opt_noplaylist a = opt_noplaylist b)"

definition prompts :: "event list \<Rightarrow> event list" where
  "prompts evs = filter (\<lambda>e. e = LoginRequest \<or> e = PasswordRequest) evs"

definition new_slave :: slave where
  "new_slave =
     \<lparr>allow_authentication_request = True, skip_authentication = False, skipped_count = 0,
      ydl_opts = \<lparr>opt_username = None, opt_password = None, opt_videopassword = None,
                  opt_playlistend = None, opt_noplaylist = None,
                  opt_writeinfojson = False, opt_skip_download = False\<rparr>,
      events = []\<rparr>"

definition decliner :: handler where
  "decliner = \<lparr>on_login_request = ([], []), on_password_request = [],
               on_playlist_request = False\<rparr>"

definition subscriber :: handler where
  "subscriber = \<lparr>on_login_request = (''alice'', ''secret''), on_password_request = ''secret'',
             on_playlist_request = True\<rparr>"

definition sign_in_line :: string where
  "sign_in_line = ''ERROR: Sign in to confirm your age''"

lemma sign_in_line_required: "sign_in_required sign_in_line"
  by (simp add: sign_in_line_def sign_in_required_def boundary_before_def boundary_after_def
      is_word_def)

lemma downloads_append [simp]: "downloads (xs @ ys) = downloads xs @ downloads ys"
  by (induction xs) (auto split: event.splits)

lemma same_extent_refl [simp]: "same_extent a a"
  by (simp add: same_extent_def)

lemma session_event_extent:
  "same_extent a b \<Longrightarrow> session_event a e = session_event b e"
  by (auto simp: same_extent_def session_event_def split: event.splits)

lemma error_session:
  assumes "error h msg s = (sg, s')"
  shows "same_extent (ydl_opts s') (ydl_opts s)
       \<and> (\<exists>ev. events s' = events s @ ev \<and> list_all (session_event (ydl_opts s)) ev
                \<and> downloads ev = [])"
  using assms
  by (auto simp: error_def Let_def same_extent_def session_event_def split: if_splits prod.splits)

lemma run_lines_session:
  assumes "run_lines h msgs s = (sg, s')"
  shows "same_extent (ydl_opts s') (ydl_opts s)
       \<and> (\<exists>ev. events s' = events s @ ev \<and> list_all (session_event (ydl_opts s)) ev
                \<and> downloads ev = [])"
  using assms
proof (induction msgs arbitrary: s)
  case Nil
  then show ?case by simp
next
  case (Cons m ms)
  obtain sg1 s1 where e: "error h m s = (sg1, s1)" by (cases "error h m s")
  from error_session [OF e] obtain ev1 where x1: "same_extent (ydl_opts s1) (ydl_opts s)"
    and ev1: "events s1 = events s @ ev1" "list_all (session_event (ydl_opts s)) ev1"
      "downloads ev1 = []" by blast
  show ?case
  proof (cases "sg1 = Returned")
    case True
    with Cons.prems e have "run_lines h ms s1 = (sg, s')" by simp
    from Cons.IH [OF this] obtain ev2 where x2: "same_extent (ydl_opts s') (ydl_opts s1)"
      and ev2: "events s' = events s1 @ ev2" "list_all (session_event (ydl_opts s1)) ev2"
        "downloads ev2 = []" by blast
    have "same_extent (ydl_opts s') (ydl_opts s)"
      using x1 x2 by (simp add: same_extent_def)
    moreover have "events s' = events s @ (ev1 @ ev2)" using ev1 ev2 by simp
    moreover have "list_all (session_event (ydl_opts s)) (ev1 @ ev2)"
      using ev1 ev2 session_event_extent [OF x1] by (auto simp: list_all_iff)
    moreover have "downloads (ev1 @ ev2) = []" using ev1 ev2 by simp
    ultimately show ?thesis by blast
  next
    case False
    with Cons.prems e have "s' = s1" by (cases sg1; simp)
    with x1 ev1 show ?thesis by blast
  qed
qed

lemma attempt_opts_extent [simp]: "same_extent (attempt_opts s) (ydl_opts s)"
  by (simp add: attempt_opts_def same_extent_def)

lemma invoke_session:
  assumes "invoke h backend s = ((sg, s'), infos)"
  shows "same_extent (ydl_opts s') (ydl_opts s)
       \<and> (\<exists>ev. events s' = events s @ YdlDownload (attempt_opts s) # ev
                \<and> list_all (session_event (ydl_opts s)) ev \<and> downloads ev = [])"
proof -
  let ?s1 = "s\<lparr>events := events s @ [YdlDownload (attempt_opts s)]\<rparr>"
  from assms have "run_lines h (fst (backend (events s) (attempt_opts s))) ?s1 = (sg, s')"
    by (simp add: invoke_def Let_def)
  from run_lines_session [OF this] show ?thesis by simp
qed

lemma invoke_no_retry:
  "\<not> allow_authentication_request s \<Longrightarrow> fst (fst (invoke h backend s)) \<noteq> RetryException"
  using invoke_retry [of h backend s] by (metis prod.collapse)

lemma load_playlist_loop_once:
  assumes "fst (fst (invoke h backend s)) \<noteq> RetryException"
  shows "load_playlist_loop h backend s =
           (if fst (fst (invoke h backend s)) = SystemExit then (None, snd (fst (invoke h backend s)))
            else (Some (snd (invoke h backend s),
                        skipped_count (snd (fst (invoke h backend s))) - skipped_count s),
                  snd (fst (invoke h backend s))))"
  using assms by (subst load_playlist_loop.simps) (simp add: Let_def)

lemma load_playlist_loop_again:
  assumes "fst (fst (invoke h backend s)) = RetryException"
  shows "load_playlist_loop h backend s = load_playlist_loop h backend (snd (fst (invoke h backend s)))"
  using assms by (subst load_playlist_loop.simps) (simp add: Let_def)

lemma load_playlist_loop_session:
  assumes "load_playlist_loop h backend s = (r, s')"
  shows "same_extent (ydl_opts s') (ydl_opts s)
       \<and> (\<exists>ev. events s' = events s @ YdlDownload (attempt_opts s) # ev
                \<and> list_all (session_event (ydl_opts s)) ev \<and> length (downloads ev) \<le> 1)"
proof -
  obtain sg1 s1 i1 where i: "invoke h backend s = ((sg1, s1), i1)"
    by (metis prod.collapse)
  from invoke_session [OF i] obtain ev1 where x1: "same_extent (ydl_opts s1) (ydl_opts s)"
    and ev1: "events s1 = events s @ YdlDownload (attempt_opts s) # ev1"
      "list_all (session_event (ydl_opts s)) ev1" "downloads ev1 = []" by blast
  show ?thesis
  proof (cases "sg1 = RetryException")
    case False
    with load_playlist_loop_once [of h backend s] i assms have "s' = s1"
      by (auto split: if_splits)
    with x1 ev1 show ?thesis by auto
  next
    case True
    with invoke_retry i have na: "\<not> allow_authentication_request s1" by blast
    obtain sg2 s2 i2 where j: "invoke h backend s1 = ((sg2, s2), i2)"
      by (metis prod.collapse)
    from invoke_no_retry [OF na, of h backend] j have nr: "sg2 \<noteq> RetryException" by simp
    from load_playlist_loop_again [of h backend s] i True
    have "load_playlist_loop h backend s = load_playlist_loop h backend s1" by simp
    with load_playlist_loop_once [of h backend s1] j nr assms have "s' = s2"
      by (auto split: if_splits)
    from invoke_session [OF j] obtain ev2 where x2: "same_extent (ydl_opts s2) (ydl_opts s1)"
      and ev2: "events s2 = events s1 @ YdlDownload (attempt_opts s1) # ev2"
        "list_all (session_event (ydl_opts s1)) ev2" "downloads ev2 = []" by blast
    have "same_extent (ydl_opts s') (ydl_opts s)"
      using x1 x2 \<open>s' = s2\<close> by (simp add: same_extent_def)
    moreover have "events s' = events s @ YdlDownload (attempt_opts s)
        # (ev1 @ YdlDownload (attempt_opts s1) # ev2)"
      using ev1 ev2 \<open>s' = s2\<close> by simp
    moreover have "session_event (ydl_opts s) (YdlDownload (attempt_opts s1))"
      using x1 by (simp add: session_event_def same_extent_def attempt_opts_def)
    then have "list_all (session_event (ydl_opts s)) (ev1 @ YdlDownload (attempt_opts s1) # ev2)"
      using ev1 ev2 session_event_extent [OF x1] by (auto simp: list_all_iff)
    moreover have "length (downloads (ev1 @ YdlDownload (attempt_opts s1) # ev2)) \<le> 1"
      using ev1 ev2 by simp
    ultimately show ?thesis by blast
  qed
qed

lemma error_disabled:
  assumes "\<not> allow_authentication_request s"
  shows "error h msg s =
           (if xattr_unsupported msg then (Returned, s)
            else (SystemExit, s\<lparr>events := events s @ [OnError msg]\<rparr>))"
  using assms by (simp add: error_def)

lemma run_lines_disabled:
  assumes "\<not> allow_authentication_request s"
  shows "fst (run_lines h msgs s) \<noteq> RetryException
       \<and> \<not> allow_authentication_request (snd (run_lines h msgs s))
       \<and> prompts (events (snd (run_lines h msgs s))) = prompts (events s)"
  using assms
proof (induction msgs arbitrary: s)
  case Nil
  then show ?case by simp
next
  case (Cons m ms)
  show ?case
  proof (cases "xattr_unsupported m")
    case True
    then have "run_lines h (m # ms) s = run_lines h ms s"
      using Cons.prems by (simp add: error_disabled)
    with Cons.IH [OF Cons.prems] show ?thesis by simp
  next
    case False
    then have "run_lines h (m # ms) s = (SystemExit, s\<lparr>events := events s @ [OnError m]\<rparr>)"
      using Cons.prems by (simp add: error_disabled)
    with Cons.prems show ?thesis by (simp add: prompts_def)
  qed
qed

text \<open>Line 385: the controller disables authentication requests before the downloads.\<close>

definition begin_downloads :: "slave \<Rightarrow> slave" where
  "begin_downloads s = s\<lparr>allow_authentication_request := False\<rparr>"

lemma run_lines_append:
  "run_lines h (pre @ rest) s =
     (if fst (run_lines h pre s) = Returned then run_lines h rest (snd (run_lines h pre s))
      else run_lines h pre s)"
proof (induction pre arbitrary: s)
  case Nil
  show ?case by simp
next
  case (Cons m ms)
  obtain sg1 s1 where e: "error h m s = (sg1, s1)" by (cases "error h m s")
  show ?case
    using Cons.IH [of s1] e by (cases sg1) simp_all
qed

definition xattr_line :: string where
  "xattr_line = ''ERROR: This filesystem doesn't support extended attributes. (ignored)''"

definition xattr_backend :: "event list \<Rightarrow> options \<Rightarrow> string list \<times> string list" where
  "xattr_backend evs opts =
     (if opt_username opts = None then ([xattr_line, sign_in_line], [])
      else ([], [''first'', ''second'']))"

definition probing_slave :: slave where
  "probing_slave = new_slave\<lparr>events := [YdlDownload (attempt_opts new_slave)]\<rparr>"

lemma xattr_line_ignored: "error h xattr_line probing_slave = (Returned, probing_slave)"
  by (simp add: error_def xattr_line_def probing_slave_def new_slave_def sign_in_required_def
      video_password_required_def xattr_unsupported_def boundary_before_def boundary_after_def
      is_word_def)

text \<open>
  Claim C2. A sign-in-required line that arrives while authentication requests are
  allowed and not yet declined, answered with a non-empty response, stores the user name
  and the password in the job options, disables authentication requests and raises the
  retry signal. After that, no later line raises the retry signal, re-enables
  authentication requests or asks the collaborator again. Wherever the line stands among
  the error lines of a backend invocation of the session runner, after lines that
  returned, the invocation ends with the retry signal and the runner invokes the backend
  exactly once more, with the credentials in the options; this second invocation raises
  no retry signal. Whatever the backend reports, a call of the session runner invokes the
  backend at most twice.
\<close>

theorem sign_in_retry:
  assumes "allow_authentication_request s" and "\<not> skip_authentication s"
    and "sign_in_required msg"
    and "on_login_request h = (user, pw)" and "user \<noteq> [] \<or> pw \<noteq> []"
  shows "error h msg s =
           (RetryException,
            s\<lparr>events := events s @ [LoginRequest],
              ydl_opts := (ydl_opts s)\<lparr>opt_username := Some user, opt_password := Some pw\<rparr>,
              allow_authentication_request := False\<rparr>)
       \<and> (\<forall>later. fst (run_lines h later (snd (error h msg s))) \<noteq> RetryException
            \<and> \<not> allow_authentication_request (snd (run_lines h later (snd (error h msg s))))
            \<and> prompts (events (snd (run_lines h later (snd (error h msg s)))))
                = prompts (events (snd (error h msg s))))
       \<and> (\<forall>backend :: event list \<Rightarrow> options \<Rightarrow> string list \<times> 'i list.
            \<forall>s0 before rest.
              fst (backend (events s0) (attempt_opts s0)) = before @ msg # rest
              \<and> run_lines h before (s0\<lparr>events := events s0 @ [YdlDownload (attempt_opts s0)]\<rparr>)
                  = (Returned, s) \<longrightarrow>
              (let s2 = snd (error h msg s);
                   r = invoke h backend s2
               in fst (invoke h backend s0) = (RetryException, s2)
                \<and> fst (fst r) \<noteq> RetryException
                \<and> load_playlist_loop h backend s0 =
                    (if fst (fst r) = SystemExit then (None, snd (fst r))
                     else (Some (snd r, skipped_count (snd (fst r)) - skipped_count s2),
                           snd (fst r)))
                \<and> opt_username (attempt_opts s2) = Some user
                \<and> opt_password (attempt_opts s2) = Some pw
                \<and> downloads (events (snd (load_playlist_loop h backend s0)))
                    = downloads (events s0) @ [attempt_opts s0, attempt_opts s2]))
       \<and> (\<forall>backend :: event list \<Rightarrow> options \<Rightarrow> string list \<times> 'i list.
            \<forall>s0. length (downloads (events (snd (load_playlist_loop h backend s0))))
                 \<le> length (downloads (events s0)) + 2)"
proof (intro conjI allI impI)
  show a: "error h msg s =
           (RetryException,
            s\<lparr>events := events s @ [LoginRequest],
              ydl_opts := (ydl_opts s)\<lparr>opt_username := Some user, opt_password := Some pw\<rparr>,
              allow_authentication_request := False\<rparr>)"
    using assms by (auto simp: error_def)
  fix later
  from a have "\<not> allow_authentication_request (snd (error h msg s))" by simp
  from run_lines_disabled [OF this, of h later]
  show "fst (run_lines h later (snd (error h msg s))) \<noteq> RetryException"
    and "\<not> allow_authentication_request (snd (run_lines h later (snd (error h msg s))))"
    and "prompts (events (snd (run_lines h later (snd (error h msg s)))))
                = prompts (events (snd (error h msg s)))"
    by simp_all
next
  fix backend :: "event list \<Rightarrow> options \<Rightarrow> string list \<times> 'i list" and s0 before rest
  assume hyp: "fst (backend (events s0) (attempt_opts s0)) = before @ msg # rest
      \<and> run_lines h before (s0\<lparr>events := events s0 @ [YdlDownload (attempt_opts s0)]\<rparr>)
          = (Returned, s)"
  define s1 where "s1 = s0\<lparr>events := events s0 @ [YdlDownload (attempt_opts s0)]\<rparr>"
  define s2 where "s2 = snd (error h msg s)"
  from hyp have lines: "fst (backend (events s0) (attempt_opts s0)) = before @ msg # rest"
    and pre: "run_lines h before s1 = (Returned, s)" by (simp_all add: s1_def)
  have e: "error h msg s = (RetryException, s2)"
    using assms by (auto simp: error_def s2_def)
  have s2: "s2 = s\<lparr>events := events s @ [LoginRequest],
      ydl_opts := (ydl_opts s)\<lparr>opt_username := Some user, opt_password := Some pw\<rparr>,
      allow_authentication_request := False\<rparr>"
    using assms by (auto simp: error_def s2_def)
  have "run_lines h (before @ msg # rest) s1 = run_lines h (msg # rest) s"
    using pre by (simp add: run_lines_append)
  also have "\<dots> = (RetryException, s2)" using e by simp
  finally have i: "invoke h backend s0
      = ((RetryException, s2), snd (backend (events s0) (attempt_opts s0)))"
    using lines by (simp add: invoke_def Let_def s1_def)
  have na: "\<not> allow_authentication_request s2" by (simp add: s2)
  have nr: "fst (fst (invoke h backend s2)) \<noteq> RetryException"
    by (rule invoke_no_retry [OF na])
  have "load_playlist_loop h backend s0 = load_playlist_loop h backend s2"
    using load_playlist_loop_again [of h backend s0] i by simp
  also note load_playlist_loop_once [OF nr]
  finally have l: "load_playlist_loop h backend s0 =
      (if fst (fst (invoke h backend s2)) = SystemExit then (None, snd (fst (invoke h backend s2)))
       else (Some (snd (invoke h backend s2),
                   skipped_count (snd (fst (invoke h backend s2))) - skipped_count s2),
             snd (fst (invoke h backend s2))))" .
  have c: "opt_username (attempt_opts s2) = Some user" "opt_password (attempt_opts s2) = Some pw"
    by (simp_all add: attempt_opts_def s2)
  from run_lines_session [OF pre] obtain ev1
    where "events s = events s1 @ ev1" and "downloads ev1 = []" by blast
  then have d2: "downloads (events s2) = downloads (events s0) @ [attempt_opts s0]"
    by (simp add: s2 s1_def)
  obtain sg3 s3 i3 where j: "invoke h backend s2 = ((sg3, s3), i3)"
    by (metis prod.collapse)
  from invoke_session [OF j] obtain ev2
    where "events s3 = events s2 @ YdlDownload (attempt_opts s2) # ev2" and "downloads ev2 = []"
    by blast
  then have "downloads (events s3) = downloads (events s0) @ [attempt_opts s0, attempt_opts s2]"
    using d2 by simp
  moreover have "snd (load_playlist_loop h backend s0) = s3"
    using l j by simp
  ultimately have d: "downloads (events (snd (load_playlist_loop h backend s0)))
      = downloads (events s0) @ [attempt_opts s0, attempt_opts s2]" by simp
  show "let s2 = snd (error h msg s);
            r = invoke h backend s2
        in fst (invoke h backend s0) = (RetryException, s2)
         \<and> fst (fst r) \<noteq> RetryException
         \<and> load_playlist_loop h backend s0 =
             (if fst (fst r) = SystemExit then (None, snd (fst r))
              else (Some (snd r, skipped_count (snd (fst r)) - skipped_count s2),
                    snd (fst r)))
         \<and> opt_username (attempt_opts s2) = Some user
         \<and> opt_password (attempt_opts s2) = Some pw
         \<and> downloads (events (snd (load_playlist_loop h backend s0)))
             = downloads (events s0) @ [attempt_opts s0, attempt_opts s2]"
    unfolding Let_def s2_def [symmetric] using i nr l c d by simp
next
  fix backend :: "event list \<Rightarrow> options \<Rightarrow> string list \<times> 'i list" and s0
  obtain r s' where l: "load_playlist_loop h backend s0 = (r, s')"
    by (cases "load_playlist_loop h backend s0")
  from load_playlist_loop_session [OF l] obtain ev
    where "events s' = events s0 @ YdlDownload (attempt_opts s0) # ev"
      and "length (downloads ev) \<le> 1" by blast
  then show "length (downloads (events (snd (load_playlist_loop h backend s0))))
                 \<le> length (downloads (events s0)) + 2"
    using l by simp
qed

text \<open>
  Claim C3, as the code has it. A sign-in-required or video-password-required line that
  arrives while authentication requests are allowed and is answered with an empty
  response adds exactly one to the skip count, records the refusal, and returns without
  the retry signal. From then on the lines never raise the retry signal, and while
  authentication requests stay allowed every later authentication-required line adds one
  to the skip count and changes nothing else: the collaborator is not asked again. Once
  the controller has disabled authentication requests, the refusal is still recorded,
  but such a line is no longer skipped: it is reported as an error and the process
  exits, unless it is the line about extended attributes, which is ignored.
\<close>

theorem declined_authentication_skips:
  assumes "allow_authentication_request s" and "\<not> skip_authentication s"
    and "sign_in_required msg \<or> video_password_required msg"
    and "if sign_in_required msg then on_login_request h = ([], [])
         else on_password_request h = []"
  shows "\<exists>s1. error h msg s = (Returned, s1)
          \<and> skipped_count s1 = skipped_count s + 1
          \<and> skip_authentication s1
          \<and> events s1 = events s @ [if sign_in_required msg then LoginRequest else PasswordRequest]
          \<and> ydl_opts s1 = ydl_opts s
          \<and> (\<forall>later. fst (run_lines h later s1) \<noteq> RetryException)
          \<and> (\<forall>later s2 msg2.
                 run_lines h later s1 = (Returned, s2)
                 \<and> (sign_in_required msg2 \<or> video_password_required msg2) \<longrightarrow>
                 error h msg2 s2 = (Returned, s2\<lparr>skipped_count := skipped_count s2 + 1\<rparr>)
                 \<and> events s2 = events s1
                 \<and> skip_authentication (begin_downloads s2)
                 \<and> error h msg2 (begin_downloads s2) =
                     (if xattr_unsupported msg2 then (Returned, begin_downloads s2)
                      else (SystemExit,
                            (begin_downloads s2)\<lparr>events := events s2 @ [OnError msg2]\<rparr>)))"
proof -
  define s1 where "s1 = s\<lparr>events := events s @ [if sign_in_required msg then LoginRequest
       else PasswordRequest], skip_authentication := True, skipped_count := skipped_count s + 1\<rparr>"
  have e: "error h msg s = (Returned, s1)"
    using assms by (auto simp: error_def s1_def split: if_splits)
  have a1: "allow_authentication_request s1" and k1: "skip_authentication s1"
    using assms(1) by (simp_all add: s1_def)
  have no_retry: "fst (run_lines h later s1) \<noteq> RetryException" for later
    using run_lines_declined [OF a1 k1, of h later] by (cases "run_lines h later s1") simp
  have later: "error h msg2 s2 = (Returned, s2\<lparr>skipped_count := skipped_count s2 + 1\<rparr>)
      \<and> events s2 = events s1
      \<and> skip_authentication (begin_downloads s2)
      \<and> error h msg2 (begin_downloads s2) =
          (if xattr_unsupported msg2 then (Returned, begin_downloads s2)
           else (SystemExit, (begin_downloads s2)\<lparr>events := events s2 @ [OnError msg2]\<rparr>))"
    if r: "run_lines h later s1 = (Returned, s2)"
      and m2: "sign_in_required msg2 \<or> video_password_required msg2" for later s2 msg2
  proof -
    from run_lines_declined [OF a1 k1 r]
    have a2: "allow_authentication_request s2" and k2: "skip_authentication s2"
      and ev: "events s2 = events s1" by simp_all
    obtain sg3 s3 where e3: "error h msg2 s2 = (sg3, s3)" by (cases "error h msg2 s2")
    have "\<not> allow_authentication_request (begin_downloads s2)"
      by (simp add: begin_downloads_def)
    from error_disabled [OF this, of h msg2]
    have "error h msg2 (begin_downloads s2) =
        (if xattr_unsupported msg2 then (Returned, begin_downloads s2)
         else (SystemExit, (begin_downloads s2)\<lparr>events := events s2 @ [OnError msg2]\<rparr>))"
      by (simp add: begin_downloads_def)
    with error_declined [OF a2 k2 e3] m2 e3 ev k2 show ?thesis
      by (simp add: begin_downloads_def)
  qed
  show ?thesis
  proof (intro exI [of _ s1] conjI allI impI)
    show "error h msg s = (Returned, s1)" by (rule e)
    show "skipped_count s1 = skipped_count s + 1" by (simp add: s1_def)
    show "skip_authentication s1" by (rule k1)
    show "events s1 = events s @ [if sign_in_required msg then LoginRequest else PasswordRequest]"
      by (simp add: s1_def)
    show "ydl_opts s1 = ydl_opts s" by (simp add: s1_def)
    show "fst (run_lines h later s1) \<noteq> RetryException" for later by (rule no_retry)
  qed (use later in blast)+
qed

theorem sign_in_retry_witness:
  "allow_authentication_request probing_slave \<and> \<not> skip_authentication probing_slave
   \<and> sign_in_required sign_in_line
   \<and> on_login_request subscriber = (''alice'', ''secret'')
   \<and> fst (xattr_backend (events new_slave) (attempt_opts new_slave))
       = [xattr_line] @ sign_in_line # []
   \<and> run_lines subscriber [xattr_line]
         (new_slave\<lparr>events := events new_slave @ [YdlDownload (attempt_opts new_slave)]\<rparr>)
       = (Returned, probing_slave)
   \<and> fst (invoke subscriber xattr_backend new_slave)
       = (RetryException, snd (error subscriber sign_in_line probing_slave))
   \<and> fst (load_playlist_loop subscriber xattr_backend new_slave)
       = Some ([''first'', ''second''], 0)
   \<and> map opt_username (downloads (events (snd (load_playlist_loop subscriber xattr_backend
         new_slave)))) = [None, Some ''alice'']"
proof -
  have a: "allow_authentication_request probing_slave" "\<not> skip_authentication probing_slave"
    by (simp_all add: probing_slave_def new_slave_def)
  have l: "on_login_request subscriber = (''alice'', ''secret'')" by (simp add: subscriber_def)
  have n: "''alice'' \<noteq> [] \<or> ''secret'' \<noteq> []" by simp
  have b: "fst (xattr_backend (events new_slave) (attempt_opts new_slave))
      = [xattr_line] @ sign_in_line # []"
    by (simp add: xattr_backend_def attempt_opts_def new_slave_def)
  have r: "run_lines subscriber [xattr_line]
      (new_slave\<lparr>events := events new_slave @ [YdlDownload (attempt_opts new_slave)]\<rparr>)
      = (Returned, probing_slave)"
    using xattr_line_ignored [of subscriber] by (simp add: probing_slave_def new_slave_def)
  note t = sign_in_retry [OF a sign_in_line_required l n, where ?'i = string]
  from t have e: "error subscriber sign_in_line probing_slave =
      (RetryException,
       probing_slave\<lparr>events := events probing_slave @ [LoginRequest],
         ydl_opts := (ydl_opts probing_slave)\<lparr>opt_username := Some ''alice'',
                                                opt_password := Some ''secret''\<rparr>,
         allow_authentication_request := False\<rparr>)"
    by (rule conjunct1)
  from t [THEN conjunct2, THEN conjunct2, THEN conjunct1, rule_format,
      of xattr_backend new_slave "[xattr_line]" "[]", OF conjI [OF b r]]
  have c: "fst (invoke subscriber xattr_backend new_slave)
        = (RetryException, snd (error subscriber sign_in_line probing_slave))"
    and d: "load_playlist_loop subscriber xattr_backend new_slave =
        (if fst (fst (invoke subscriber xattr_backend
              (snd (error subscriber sign_in_line probing_slave)))) = SystemExit
         then (None, snd (fst (invoke subscriber xattr_backend
              (snd (error subscriber sign_in_line probing_slave)))))
         else (Some (snd (invoke subscriber xattr_backend
                      (snd (error subscriber sign_in_line probing_slave))),
                     skipped_count (snd (fst (invoke subscriber xattr_backend
                       (snd (error subscriber sign_in_line probing_slave)))))
                     - skipped_count (snd (error subscriber sign_in_line probing_slave))),
               snd (fst (invoke subscriber xattr_backend
                 (snd (error subscriber sign_in_line probing_slave))))))"
    and f: "downloads (events (snd (load_playlist_loop subscriber xattr_backend new_slave)))
        = downloads (events new_slave)
          @ [attempt_opts new_slave,
             attempt_opts (snd (error subscriber sign_in_line probing_slave))]"
    unfolding Let_def by blast+
  have i: "invoke subscriber xattr_backend (snd (error subscriber sign_in_line probing_slave))
      = ((Returned,
          (snd (error subscriber sign_in_line probing_slave))
            \<lparr>events := events (snd (error subscriber sign_in_line probing_slave))
               @ [YdlDownload (attempt_opts (snd (error subscriber sign_in_line probing_slave)))]\<rparr>),
         [''first'', ''second''])"
    by (simp add: e invoke_def Let_def xattr_backend_def attempt_opts_def)
  have 1: "fst (load_playlist_loop subscriber xattr_backend new_slave)
      = Some ([''first'', ''second''], 0)"
    unfolding d i by (simp add: e)
  have 2: "map opt_username (downloads (events (snd (load_playlist_loop subscriber xattr_backend
      new_slave)))) = [None, Some ''alice'']"
    unfolding f e by (simp add: attempt_opts_def new_slave_def probing_slave_def)
  from a sign_in_line_required l b r c 1 2 show ?thesis by simp
qed

theorem declined_authentication_skips_witness:
  "allow_authentication_request new_slave \<and> \<not> skip_authentication new_slave
   \<and> sign_in_required sign_in_line
   \<and> on_login_request decliner = ([], [])
   \<and> error decliner sign_in_line new_slave =
        (Returned, new_slave\<lparr>events := [LoginRequest], skip_authentication := True,
                               skipped_count := 1\<rparr>)
   \<and> (\<exists>s1. error decliner sign_in_line new_slave = (Returned, s1)
          \<and> skipped_count s1 = 1 \<and> skip_authentication s1
          \<and> error decliner sign_in_line s1 = (Returned, s1\<lparr>skipped_count := 2\<rparr>))"
  using declined_authentication_skips [of new_slave sign_in_line decliner]
    sign_in_line_required
  by (simp add: new_slave_def decliner_def error_def)

text \<open>
  After a declined request, a sign-in line that arrives once the controller has disabled
  authentication requests is not skipped: the skip count stays, the line is reported as
  an error and the process exits.
\<close>

theorem declined_later_line_counterexample:
  "error decliner sign_in_line new_slave =
     (Returned, new_slave\<lparr>events := [LoginRequest], skip_authentication := True,
                            skipped_count := 1\<rparr>)
   \<and> error decliner sign_in_line
        (begin_downloads (new_slave\<lparr>events := [LoginRequest], skip_authentication := True,
                                      skipped_count := 1\<rparr>)) =
     (SystemExit,
      new_slave\<lparr>events := [LoginRequest, OnError sign_in_line], skip_authentication := True,
                 skipped_count := 1, allow_authentication_request := False\<rparr>)"
  using sign_in_line_required
  by (simp add: new_slave_def decliner_def error_def begin_downloads_def sign_in_line_def
      xattr_unsupported_def)

subsection \<open>Playlist or single item: the probes of \<^verbatim>\<open>YoutubeDLSlave.__init__\<close>\<close>

text \<open>
  The block that decides what to enumerate assigns and deletes the options
  \<open>playlistend\<close> and \<open>noplaylist\<close> around at most three calls of \<^verbatim>\<open>_load_playlist\<close>. A
  call that leaves through \<^verbatim>\<open>sys.exit\<close> ends the controller: the result is \<open>None\<close>. The
  events of one call of \<^verbatim>\<open>_load_playlist\<close> form a session: the call, one or two backend
  invocations with the same \<open>playlistend\<close> and \<open>noplaylist\<close>, and the requests and errors
  in between.
\<close>

fun is_session :: "nat option \<Rightarrow> bool option \<Rightarrow> event list \<Rightarrow> bool" where
  "is_session pe np (LoadPlaylist # YdlDownload opts # rest) =
     (opt_playlistend opts = pe \<and> opt_noplaylist opts = np
      \<and> opt_writeinfojson opts \<and> opt_skip_download opts
      \<and> list_all (session_event opts) rest \<and> length (downloads rest) \<le> 1)"
| "is_session pe np evs = False"

definition disambiguate ::
  "handler \<Rightarrow> (event list \<Rightarrow> options \<Rightarrow> string list \<times> 'i list) \<Rightarrow> slave
   \<Rightarrow> 'i list option \<times> slave" where
  "disambiguate h backend s =
     (let s1 = s\<lparr>ydl_opts := (ydl_opts s)\<lparr>opt_playlistend := Some 2\<rparr>\<rparr>
      in case load_playlist h backend s1 of
           (None, s2) \<Rightarrow> (None, s2)
         | (Some (info_testplaylist, skipped_testplaylist), s2) \<Rightarrow>
             let s3 = s2\<lparr>ydl_opts := (ydl_opts s2)\<lparr>opt_noplaylist := Some True\<rparr>\<rparr>
             in case (if length info_testplaylist + skipped_testplaylist > 1
                      then load_playlist h backend s3
                      else (Some (info_testplaylist, skipped_testplaylist), s3)) of
                  (None, s4) \<Rightarrow> (None, s4)
                | (Some (info_noplaylist, skipped_noplaylist), s4) \<Rightarrow>
                    let s5 = s4\<lparr>ydl_opts := (ydl_opts s4)\<lparr>opt_noplaylist := None,
                                                            opt_playlistend := None\<rparr>\<rparr>
                    in if length info_testplaylist + skipped_testplaylist
                            > length info_noplaylist + skipped_noplaylist then
                         let answer = on_playlist_request h;
                             s6 = s5\<lparr>events := events s5 @ [PlaylistRequest],
                                     ydl_opts := (ydl_opts s5)\<lparr>opt_noplaylist := Some (\<not> answer)\<rparr>\<rparr>
                         in if answer then
                              (case load_playlist h backend s6 of
                                 (None, s7) \<Rightarrow> (None, s7)
                               | (Some (info_playlist, skipped), s7) \<Rightarrow> (Some info_playlist, s7))
                            else (Some info_noplaylist, s6)
                       else if length info_testplaylist + skipped_testplaylist > 1 then
                         (case load_playlist h backend s5 of
                            (None, s7) \<Rightarrow> (None, s7)
                          | (Some (info_playlist, skipped), s7) \<Rightarrow> (Some info_playlist, s7))
                       else (Some info_testplaylist, s5))"

definition playlist_backend :: "event list \<Rightarrow> options \<Rightarrow> string list \<times> string list" where
  "playlist_backend evs opts =
     (if opt_noplaylist opts = Some True then ([], [''first''])
      else if opt_playlistend opts = Some 2 then ([], [''first'', ''second''])
      else ([], [''first'', ''second'', ''third'']))"

lemma load_playlist_session:
  assumes "load_playlist h backend s = (r, s')"
  shows "same_extent (ydl_opts s') (ydl_opts s)
       \<and> (\<exists>ev. events s' = events s @ ev
                \<and> is_session (opt_playlistend (ydl_opts s)) (opt_noplaylist (ydl_opts s)) ev)"
proof -
  let ?s0 = "s\<lparr>events := events s @ [LoadPlaylist]\<rparr>"
  from assms have "load_playlist_loop h backend ?s0 = (r, s')" by (simp add: load_playlist_def)
  from load_playlist_loop_session [OF this] obtain ev
    where x: "same_extent (ydl_opts s') (ydl_opts s)"
      and ev: "events s' = events s @ LoadPlaylist # YdlDownload (attempt_opts ?s0) # ev"
        "list_all (session_event (ydl_opts s)) ev" "length (downloads ev) \<le> 1"
    by auto
  have "session_event (attempt_opts ?s0) = session_event (ydl_opts s)"
    by (rule ext, rule session_event_extent) (simp add: same_extent_def attempt_opts_def)
  with ev have "is_session (opt_playlistend (ydl_opts s)) (opt_noplaylist (ydl_opts s))
      (LoadPlaylist # YdlDownload (attempt_opts ?s0) # ev)"
    by (simp add: attempt_opts_def)
  with x ev(1) show ?thesis by blast
qed

lemma is_session_quiet:
  "is_session pe np ev \<Longrightarrow> PlaylistRequest \<notin> set ev \<and> length (filter (\<lambda>e. e = LoadPlaylist) ev) = 1"
proof (induction pe np ev rule: is_session.induct)
  case (1 pe np opts rest)
  then have "list_all (session_event opts) rest" by simp
  then have "PlaylistRequest \<notin> set rest \<and> filter (\<lambda>e. e = LoadPlaylist) rest = []"
    by (induction rest) (auto simp: session_event_def split: event.splits)
  then show ?case by simp
qed simp_all

lemma load_playlist_quiet:
  assumes "fst (backend (events s @ [LoadPlaylist]) (attempt_opts s)) = []"
  shows "load_playlist h backend s =
           (Some (snd (backend (events s @ [LoadPlaylist]) (attempt_opts s)), 0),
            s\<lparr>events := events s @ [LoadPlaylist, YdlDownload (attempt_opts s)]\<rparr>)"
proof -
  let ?s0 = "s\<lparr>events := events s @ [LoadPlaylist]\<rparr>"
  have a: "attempt_opts ?s0 = attempt_opts s" by (simp add: attempt_opts_def)
  have i: "invoke h backend ?s0 =
      ((Returned, s\<lparr>events := events s @ [LoadPlaylist, YdlDownload (attempt_opts s)]\<rparr>),
       snd (backend (events s @ [LoadPlaylist]) (attempt_opts s)))"
    using assms by (simp add: invoke_def Let_def a)
  then have "fst (fst (invoke h backend ?s0)) \<noteq> RetryException" by simp
  from load_playlist_loop_once [OF this] i show ?thesis
    by (simp add: load_playlist_def)
qed

definition enumerate_all ::
  "handler \<Rightarrow> (event list \<Rightarrow> options \<Rightarrow> string list \<times> 'i list) \<Rightarrow> slave
   \<Rightarrow> 'i list option \<times> slave" where
  "enumerate_all h backend s =
     (case load_playlist h backend s of
        (None, s7) \<Rightarrow> (None, s7)
      | (Some (info_playlist, skipped), s7) \<Rightarrow> (Some info_playlist, s7))"

lemma enumerate_all_session:
  "\<exists>ev. events (snd (enumerate_all h backend s)) = events s @ ev
      \<and> is_session (opt_playlistend (ydl_opts s)) (opt_noplaylist (ydl_opts s)) ev"
proof -
  obtain r s' where l: "load_playlist h backend s = (r, s')"
    by (cases "load_playlist h backend s")
  have "snd (enumerate_all h backend s) = s'"
    using l by (simp add: enumerate_all_def split: option.splits prod.splits)
  with load_playlist_session [OF l] show ?thesis by simp
qed

lemma disambiguate_probed:
  assumes "load_playlist h backend (s\<lparr>ydl_opts := (ydl_opts s)\<lparr>opt_playlistend := Some 2\<rparr>\<rparr>)
             = (Some (info_test, skipped_test), s2)"
    and "(if 1 < length info_test + skipped_test
          then load_playlist h backend (s2\<lparr>ydl_opts := (ydl_opts s2)\<lparr>opt_noplaylist := Some True\<rparr>\<rparr>)
          else (Some (info_test, skipped_test),
                s2\<lparr>ydl_opts := (ydl_opts s2)\<lparr>opt_noplaylist := Some True\<rparr>\<rparr>))
           = (Some (info_no, skipped_no), s4)"
  shows "disambiguate h backend s =
           (let s5 = s4\<lparr>ydl_opts := (ydl_opts s4)\<lparr>opt_noplaylist := None,
                                                   opt_playlistend := None\<rparr>\<rparr>;
                s6 = s5\<lparr>events := events s5 @ [PlaylistRequest],
                        ydl_opts := (ydl_opts s5)\<lparr>opt_noplaylist :=
                                                    Some (\<not> on_playlist_request h)\<rparr>\<rparr>
            in if length info_no + skipped_no < length info_test + skipped_test then
                 (if on_playlist_request h then enumerate_all h backend s6
                  else (Some info_no, s6))
               else if 1 < length info_test + skipped_test then enumerate_all h backend s5
               else (Some info_test, s5))"
  using assms unfolding disambiguate_def enumerate_all_def Let_def
  by (simp only: prod.case option.case split: if_splits)

lemma playlist_probe:
  "load_playlist h playlist_backend s =
     (Some (snd (playlist_backend (events s @ [LoadPlaylist]) (attempt_opts s)), 0),
      s\<lparr>events := events s @ [LoadPlaylist, YdlDownload (attempt_opts s)]\<rparr>)"
  by (rule load_playlist_quiet) (simp add: playlist_backend_def)

text \<open>
  Claim C1. Let the first probe (at most two items) return the items \<open>info_test\<close> with
  \<open>skipped_test\<close> skipped, and let \<open>info_no\<close>, \<open>skipped_no\<close> be the result of the second
  probe, which is run with playlist extraction off exactly when the first total exceeds
  one and is the first result otherwise. Then the calls of the controller are: the first
  probe with \<open>playlistend = 2\<close>; the second probe exactly when the first total exceeds one;
  a playlist request exactly when the first total exceeds the second; after an accepted
  request an enumeration with no bound and playlist extraction on, after a declined one
  nothing more and the second result; with no request, an unbounded enumeration exactly
  when the first total exceeds one, and the first result otherwise.
\<close>

theorem disambiguation_decision:
  fixes backend :: "event list \<Rightarrow> options \<Rightarrow> string list \<times> 'i list"
  assumes "load_playlist h backend (s\<lparr>ydl_opts := (ydl_opts s)\<lparr>opt_playlistend := Some 2\<rparr>\<rparr>)
             = (Some (info_test, skipped_test), s2)"
    and "(if 1 < length info_test + skipped_test
          then load_playlist h backend (s2\<lparr>ydl_opts := (ydl_opts s2)\<lparr>opt_noplaylist := Some True\<rparr>\<rparr>)
          else (Some (info_test, skipped_test),
                s2\<lparr>ydl_opts := (ydl_opts s2)\<lparr>opt_noplaylist := Some True\<rparr>\<rparr>))
           = (Some (info_no, skipped_no), s4)"
  shows "\<exists>e1 e2 e3.
           events (snd (disambiguate h backend s)) = events s @ e1 @ e2 @ e3
         \<and> is_session (Some 2) (opt_noplaylist (ydl_opts s)) e1
         \<and> (if 1 < length info_test + skipped_test then is_session (Some 2) (Some True) e2
             else e2 = [] \<and> info_no = info_test \<and> skipped_no = skipped_test)
         \<and> (PlaylistRequest \<in> set (e1 @ e2 @ e3))
             = (length info_no + skipped_no < length info_test + skipped_test)
         \<and> (if length info_no + skipped_no < length info_test + skipped_test then
               (if on_playlist_request h then
                  (\<exists>e. e3 = PlaylistRequest # e \<and> is_session None (Some False) e)
                  \<and> fst (disambiguate h backend s)
                      = map_option fst (fst (load_playlist h backend
                          (s4\<lparr>events := events s4 @ [PlaylistRequest],
                              ydl_opts := (ydl_opts s4)\<lparr>opt_playlistend := None, opt_noplaylist := Some False\<rparr>\<rparr>)))
                else e3 = [PlaylistRequest] \<and> fst (disambiguate h backend s) = Some info_no)
             else if 1 < length info_test + skipped_test then
               is_session None None e3
               \<and> fst (disambiguate h backend s)
                   = map_option fst (fst (load_playlist h backend
                       (s4\<lparr>ydl_opts := (ydl_opts s4)\<lparr>opt_noplaylist := None, opt_playlistend := None\<rparr>\<rparr>)))
             else e3 = [] \<and> fst (disambiguate h backend s) = Some info_test)"
proof -
  define tt where "tt = length info_test + skipped_test"
  define tn where "tn = length info_no + skipped_no"
  define s3 where "s3 = s2\<lparr>ydl_opts := (ydl_opts s2)\<lparr>opt_noplaylist := Some True\<rparr>\<rparr>"
  define s5 where "s5 = s4\<lparr>ydl_opts := (ydl_opts s4)\<lparr>opt_noplaylist := None, opt_playlistend := None\<rparr>\<rparr>"
  define s6 where "s6 = s4\<lparr>events := events s4 @ [PlaylistRequest],
      ydl_opts := (ydl_opts s4)\<lparr>opt_playlistend := None, opt_noplaylist := Some False\<rparr>\<rparr>"
  define s6n where "s6n = s4\<lparr>events := events s4 @ [PlaylistRequest],
      ydl_opts := (ydl_opts s4)\<lparr>opt_playlistend := None, opt_noplaylist := Some True\<rparr>\<rparr>"
  note p1 = assms(1)
  have p2: "(if 1 < tt then load_playlist h backend s3 else (Some (info_test, skipped_test), s3))
      = (Some (info_no, skipped_no), s4)"
    using assms(2) unfolding tt_def s3_def .
  have fst_all: "fst (enumerate_all h backend x) = map_option fst (fst (load_playlist h backend x))"
    for x
    by (simp add: enumerate_all_def split: prod.splits option.splits)
  have d: "disambiguate h backend s =
      (if tn < tt then (if on_playlist_request h then enumerate_all h backend s6
                        else (Some info_no, s6n))
       else if 1 < tt then enumerate_all h backend s5 else (Some info_test, s5))"
    using disambiguate_probed [OF assms]
    by (simp add: Let_def tt_def tn_def s5_def s6_def s6n_def)
  from load_playlist_session [OF p1] obtain e1
    where x2: "same_extent (ydl_opts s2) ((ydl_opts s)\<lparr>opt_playlistend := Some 2\<rparr>)"
      and e1: "events s2 = events s @ e1" "is_session (Some 2) (opt_noplaylist (ydl_opts s)) e1"
    by auto
  have q1: "PlaylistRequest \<notin> set e1" using is_session_quiet [OF e1(2)] by simp
  have "\<exists>e2. events s4 = events s2 @ e2
      \<and> (if 1 < tt then is_session (Some 2) (Some True) e2
          else e2 = [] \<and> info_no = info_test \<and> skipped_no = skipped_test)"
  proof (cases "1 < tt")
    case True
    with p2 have "load_playlist h backend s3 = (Some (info_no, skipped_no), s4)" by simp
    from load_playlist_session [OF this] x2 True show ?thesis
      by (auto simp: s3_def same_extent_def)
  next
    case False
    with p2 show ?thesis by (auto simp: s3_def)
  qed
  then obtain e2 where e2: "events s4 = events s2 @ e2"
    "if 1 < tt then is_session (Some 2) (Some True) e2
     else e2 = [] \<and> info_no = info_test \<and> skipped_no = skipped_test"
    by blast
  have q2: "PlaylistRequest \<notin> set e2"
    using e2(2) is_session_quiet [of "Some 2" "Some True" e2] by (auto split: if_splits)
  have ev4: "events s4 = events s @ e1 @ e2" using e1 e2 by simp
  show ?thesis
  proof (cases "tn < tt")
    case asked: True
    show ?thesis
    proof (cases "on_playlist_request h")
      case True
      from enumerate_all_session [of h backend s6] obtain e
        where e: "events (snd (enumerate_all h backend s6)) = events s6 @ e"
          "is_session None (Some False) e"
        by (auto simp: s6_def)
      have "events (snd (disambiguate h backend s)) = events s @ e1 @ e2 @ (PlaylistRequest # e)"
        using d asked True e ev4 by (simp add: s6_def)
      moreover have "fst (disambiguate h backend s)
          = map_option fst (fst (load_playlist h backend s6))"
        using d asked True by (simp add: fst_all)
      moreover have "PlaylistRequest \<in> set (e1 @ e2 @ (PlaylistRequest # e))" by simp
      ultimately show ?thesis
        using e1(2) e2(2) asked True e(2)
        unfolding tt_def [symmetric] tn_def [symmetric] s6_def [symmetric]
        by (intro exI [of _ e1] exI [of _ e2] exI [of _ "PlaylistRequest # e"]) simp
    next
      case False
      have "events (snd (disambiguate h backend s)) = events s @ e1 @ e2 @ [PlaylistRequest]"
        using d asked False ev4 by (simp add: s6n_def)
      moreover have "fst (disambiguate h backend s) = Some info_no"
        using d asked False by simp
      ultimately show ?thesis
        using e1(2) e2(2) asked False
        unfolding tt_def [symmetric] tn_def [symmetric]
        by (intro exI [of _ e1] exI [of _ e2] exI [of _ "[PlaylistRequest]"]) simp
    qed
  next
    case quiet: False
    show ?thesis
    proof (cases "1 < tt")
      case True
      from enumerate_all_session [of h backend s5] obtain e
        where e: "events (snd (enumerate_all h backend s5)) = events s5 @ e"
          "is_session None None e"
        by (auto simp: s5_def)
      have q3: "PlaylistRequest \<notin> set e" using is_session_quiet [OF e(2)] by simp
      have "events (snd (disambiguate h backend s)) = events s @ e1 @ e2 @ e"
        using d quiet True e ev4 by (simp add: s5_def)
      moreover have "fst (disambiguate h backend s)
          = map_option fst (fst (load_playlist h backend s5))"
        using d quiet True by (simp add: fst_all)
      moreover have "PlaylistRequest \<notin> set (e1 @ e2 @ e)" using q1 q2 q3 by simp
      ultimately show ?thesis
        using e1(2) e2(2) quiet True e(2)
        unfolding tt_def [symmetric] tn_def [symmetric] s5_def [symmetric]
        by (intro exI [of _ e1] exI [of _ e2] exI [of _ e]) simp
    next
      case False
      have "events (snd (disambiguate h backend s)) = events s @ e1 @ e2 @ []"
        using d quiet False ev4 by (simp add: s5_def)
      moreover have "fst (disambiguate h backend s) = Some info_test"
        using d quiet False by simp
      moreover have "PlaylistRequest \<notin> set (e1 @ e2 @ [])" using q1 q2 by simp
      ultimately show ?thesis
        using e1(2) e2(2) quiet False
        unfolding tt_def [symmetric] tn_def [symmetric]
        by (intro exI [of _ e1] exI [of _ e2] exI [of _ "[]"]) simp
    qed
  qed
qed

theorem disambiguation_decision_witness:
  "fst (load_playlist subscriber playlist_backend
          (new_slave\<lparr>ydl_opts := (ydl_opts new_slave)\<lparr>opt_playlistend := Some 2\<rparr>\<rparr>))
     = Some ([''first'', ''second''], 0)
   \<and> fst (disambiguate subscriber playlist_backend new_slave)
       = Some [''first'', ''second'', ''third'']
   \<and> PlaylistRequest \<in> set (events (snd (disambiguate subscriber playlist_backend new_slave)))"
proof -
  let ?s1 = "new_slave\<lparr>ydl_opts := (ydl_opts new_slave)\<lparr>opt_playlistend := Some 2\<rparr>\<rparr>"
  let ?s2 = "?s1\<lparr>events := events ?s1 @ [LoadPlaylist, YdlDownload (attempt_opts ?s1)]\<rparr>"
  let ?s3 = "?s2\<lparr>ydl_opts := (ydl_opts ?s2)\<lparr>opt_noplaylist := Some True\<rparr>\<rparr>"
  let ?s4 = "?s3\<lparr>events := events ?s3 @ [LoadPlaylist, YdlDownload (attempt_opts ?s3)]\<rparr>"
  have p1: "load_playlist subscriber playlist_backend ?s1
      = (Some ([''first'', ''second''], 0), ?s2)"
    by (simp add: playlist_probe playlist_backend_def attempt_opts_def new_slave_def)
  have p2: "(if 1 < length [''first'', ''second''] + 0
             then load_playlist subscriber playlist_backend ?s3
             else (Some ([''first'', ''second''], 0), ?s3))
      = (Some ([''first''], 0), ?s4)"
    by (simp add: playlist_probe playlist_backend_def attempt_opts_def new_slave_def)
  from disambiguation_decision [OF p1 p2] p1 show ?thesis
    by (auto simp: subscriber_def playlist_probe playlist_backend_def attempt_opts_def
        new_slave_def)
qed

subsection \<open>Automatic captions: the filter of \<^verbatim>\<open>YoutubeDLSlave.__init__\<close>\<close>

text \<open>
  Lines 397 to 414. A dictionary is the list of its items in insertion order, with
  distinct keys; the set of requested tags is the list of its elements in iteration
  order. The inner loop ends with a \<^verbatim>\<open>break\<close> at the first requested tag that accepts
  the track, either as requested or as a translated variant of the tag, which is then
  added to \<open>skip_captions\<close>; when no tag accepts the track, the track is dropped.
\<close>

datatype verdict = Requested | Translated string | NotRequested

definition translated_for :: "string \<Rightarrow> string \<Rightarrow> bool" where
  "translated_for requested_lang lang = prefix (requested_lang @ ''-'') lang"

fun match_requested :: "string list \<Rightarrow> string \<Rightarrow> string set \<Rightarrow> string list \<Rightarrow> verdict" where
  "match_requested [] lang skip_captions automatic = NotRequested"
| "match_requested (requested_lang # rest) lang skip_captions automatic =
     (if requested_lang = ''all'' \<or> requested_lang = lang then Requested
      else if translated_for requested_lang lang
              \<and> requested_lang \<notin> skip_captions
              \<and> requested_lang \<notin> set automatic then Translated requested_lang
      else match_requested rest lang skip_captions automatic)"

fun filter_captions ::
  "string list \<Rightarrow> string list \<Rightarrow> (string \<times> 'v) list \<Rightarrow> string set \<Rightarrow> (string \<times> 'v) list
   \<Rightarrow> (string \<times> 'v) list \<times> string set" where
  "filter_captions requested automatic [] skip_captions new_automatic_captions =
     (new_automatic_captions, skip_captions)"
| "filter_captions requested automatic ((lang, subs) # rest) skip_captions new_automatic_captions =
     (if lang \<in> skip_captions then
        filter_captions requested automatic rest skip_captions new_automatic_captions
      else
        case match_requested requested lang skip_captions automatic of
          NotRequested \<Rightarrow>
            filter_captions requested automatic rest skip_captions new_automatic_captions
        | Requested \<Rightarrow>
            filter_captions requested automatic rest skip_captions
              (AList.update lang subs new_automatic_captions)
        | Translated requested_lang \<Rightarrow>
            filter_captions requested automatic rest (insert requested_lang skip_captions)
              (AList.update lang subs new_automatic_captions))"

definition reconcile_captions ::
  "string list \<Rightarrow> (string \<times> 'w) list \<Rightarrow> (string \<times> 'v) list \<Rightarrow> (string \<times> 'v) list" where
  "reconcile_captions requested subtitles automatic_captions =
     fst (filter_captions requested (map fst automatic_captions) automatic_captions
            (set (map fst subtitles)) [])"

definition caption_example :: "(string \<times> nat) list" where
  "caption_example = [(''en-US'', 1), (''en-GB'', 2), (''de'', 3)]"

definition skip_before ::
  "string list \<Rightarrow> (string \<times> 'w) list \<Rightarrow> (string \<times> 'v) list \<Rightarrow> (string \<times> 'v) list
   \<Rightarrow> string set" where
  "skip_before requested subtitles automatic_captions earlier =
     snd (filter_captions requested (map fst automatic_captions) earlier
            (set (map fst subtitles)) [])"

text \<open>
  In the words of the claim: a requested tag accepts a track as a translated variant when
  it is the first requested tag, in iteration order, to accept the track at all, and
  accepts it by the rule for translated variants.
\<close>

definition accepts_translated ::
  "string list \<Rightarrow> string \<Rightarrow> string set \<Rightarrow> string list \<Rightarrow> string \<Rightarrow> bool" where
  "accepts_translated requested lang skip_captions automatic r =
     (\<exists>pre post. requested = pre @ r # post
        \<and> (\<forall>p\<in>set pre. p \<noteq> ''all'' \<and> p \<noteq> lang
              \<and> \<not> (translated_for p lang \<and> p \<notin> skip_captions \<and> p \<notin> set automatic))
        \<and> r \<noteq> ''all'' \<and> r \<noteq> lang
        \<and> translated_for r lang \<and> r \<notin> skip_captions \<and> r \<notin> set automatic)"

text \<open>
  The filter as the specification words it: a requested tag is satisfied once an earlier
  track of the form \<open>xx-YY\<close> has been kept, whatever made the filter keep it.
\<close>

fun spec_captions ::
  "string list \<Rightarrow> string set \<Rightarrow> string list \<Rightarrow> (string \<times> 'v) list \<Rightarrow> (string \<times> 'v) list
   \<Rightarrow> (string \<times> 'v) list" where
  "spec_captions requested ordinary automatic [] kept = kept"
| "spec_captions requested ordinary automatic ((lang, subs) # rest) kept =
     (if lang \<notin> ordinary
         \<and> ((\<exists>r\<in>set requested. r = ''all'' \<or> r = lang)
            \<or> (\<exists>r\<in>set requested. translated_for r lang \<and> r \<notin> set automatic
                  \<and> r \<notin> ordinary \<and> \<not> (\<exists>k\<in>fst ` set kept. translated_for r k)))
      then spec_captions requested ordinary automatic rest (kept @ [(lang, subs)])
      else spec_captions requested ordinary automatic rest kept)"

lemma match_requested_kept:
  "(match_requested requested lang skip automatic \<noteq> NotRequested) =
     ((\<exists>r\<in>set requested. r = ''all'' \<or> r = lang)
      \<or> (\<exists>r\<in>set requested. translated_for r lang \<and> r \<notin> skip \<and> r \<notin> set automatic))"
  by (induction requested) auto

lemma match_requested_translated:
  "match_requested requested lang skip automatic = Translated r \<Longrightarrow>
     r \<in> set requested \<and> translated_for r lang \<and> r \<notin> skip \<and> r \<notin> set automatic"
  by (induction requested) (auto split: if_splits)

lemma match_requested_satisfied:
  "r \<in> skip \<Longrightarrow> match_requested requested lang skip automatic \<noteq> Translated r"
  using match_requested_translated by blast

lemma filter_captions_append:
  "filter_captions requested automatic (xs @ ys) skip new =
     filter_captions requested automatic ys
       (snd (filter_captions requested automatic xs skip new))
       (fst (filter_captions requested automatic xs skip new))"
  by (induction requested automatic xs skip new rule: filter_captions.induct)
     (auto split: verdict.splits)

lemma filter_captions_skip_mono:
  "skip \<subseteq> snd (filter_captions requested automatic xs skip new)"
  by (induction requested automatic xs skip new rule: filter_captions.induct)
     (auto split: verdict.splits)

lemma filter_captions_skip_new:
  "snd (filter_captions requested automatic xs skip new)
     = snd (filter_captions requested automatic xs skip [])"
proof (induction xs arbitrary: skip new)
  case Nil
  show ?case by simp
next
  case (Cons x xs)
  obtain lang subs where x: "x = (lang, subs)" by (cases x)
  note a = Cons.IH [of _ "AList.update lang subs new"] Cons.IH [of _ "[(lang, subs)]"]
    Cons.IH [of skip new]
  show ?case
    unfolding x
    by (cases "match_requested requested lang skip automatic") (simp_all add: a)
qed

lemma filter_captions_keys:
  "fst ` set (fst (filter_captions requested automatic xs skip new))
     \<subseteq> fst ` set new \<union> fst ` set xs"
  by (induction requested automatic xs skip new rule: filter_captions.induct)
     (auto split: verdict.splits if_splits simp: dom_update)

lemma filter_captions_keeps:
  "fst ` set new \<subseteq> fst ` set (fst (filter_captions requested automatic xs skip new))"
  by (induction requested automatic xs skip new rule: filter_captions.induct)
     (auto split: verdict.splits if_splits simp: dom_update)

lemma update_pairs:
  "set (AList.update k v al) \<subseteq> insert (k, v) (set al)"
  by (induction al) auto

lemma update_same: "(k, v) \<in> set (AList.update k v al)"
  by (induction al) auto

lemma update_other: "(k, v) \<in> set al \<Longrightarrow> k' \<noteq> k \<Longrightarrow> (k, v) \<in> set (AList.update k' v' al)"
  by (induction al) auto

lemma filter_captions_pairs:
  "set (fst (filter_captions requested automatic xs skip new)) \<subseteq> set new \<union> set xs"
proof (induction requested automatic xs skip new rule: filter_captions.induct)
  case (1 requested automatic skip new)
  show ?case by simp
next
  case (2 requested automatic lang subs rest skip new)
  show ?case
  proof (cases "lang \<in> skip")
    case True
    with 2(1) show ?thesis by auto
  next
    case False
    show ?thesis
    proof (cases "match_requested requested lang skip automatic")
      case Requested
      with 2(2) [OF False Requested] False update_pairs [of lang subs new] show ?thesis
        by auto
    next
      case (Translated r)
      with 2(3) [OF False Translated] False update_pairs [of lang subs new] show ?thesis
        by auto
    next
      case NotRequested
      with 2(4) [OF False NotRequested] False show ?thesis by auto
    qed
  qed
qed

lemma filter_captions_stays:
  "(k, v) \<in> set new \<Longrightarrow> k \<notin> fst ` set xs \<Longrightarrow>
     (k, v) \<in> set (fst (filter_captions requested automatic xs skip new))"
proof (induction requested automatic xs skip new rule: filter_captions.induct)
  case (1 requested automatic skip new)
  then show ?case by simp
next
  case (2 requested automatic lang subs rest skip new)
  from 2(6) have ne: "lang \<noteq> k" and nr: "k \<notin> fst ` set rest" by auto
  from update_other [OF 2(5) ne] have u: "(k, v) \<in> set (AList.update lang subs new)" .
  show ?case
  proof (cases "lang \<in> skip")
    case True
    with 2(1) [OF True 2(5) nr] show ?thesis by simp
  next
    case False
    show ?thesis
    proof (cases "match_requested requested lang skip automatic")
      case Requested
      with 2(2) [OF False Requested u nr] False show ?thesis by simp
    next
      case (Translated r)
      with 2(3) [OF False Translated u nr] False show ?thesis by simp
    next
      case NotRequested
      with 2(4) [OF False NotRequested 2(5) nr] False show ?thesis by simp
    qed
  qed
qed

lemma filter_captions_skip_source:
  "r \<in> snd (filter_captions requested automatic xs skip new) \<Longrightarrow>
     r \<in> skip \<or> (r \<in> set requested \<and> r \<notin> set automatic
        \<and> (\<exists>l\<in>fst ` set xs. translated_for r l
              \<and> l \<in> fst ` set (fst (filter_captions requested automatic xs skip new))))"
proof (induction requested automatic xs skip new rule: filter_captions.induct)
  case (1 requested automatic skip new)
  then show ?case by simp
next
  case (2 requested automatic lang subs rest skip new)
  show ?case
  proof (cases "lang \<in> skip")
    case True
    with 2(1) [OF True] 2(5) show ?thesis by auto
  next
    case False
    show ?thesis
    proof (cases "match_requested requested lang skip automatic")
      case Requested
      with 2(2) [OF False Requested] 2(5) False show ?thesis by auto
    next
      case NotRequested
      with 2(4) [OF False NotRequested] 2(5) False show ?thesis by auto
    next
      case (Translated q)
      let ?res = "filter_captions requested automatic rest (insert q skip)
          (AList.update lang subs new)"
      have eq: "filter_captions requested automatic ((lang, subs) # rest) skip new = ?res"
        using False Translated by simp
      from 2(5) eq have "r \<in> snd ?res" by simp
      from 2(3) [OF False Translated this]
      consider "r = q" | "r \<in> skip"
        | "r \<in> set requested \<and> r \<notin> set automatic
            \<and> (\<exists>l\<in>fst ` set rest. translated_for r l \<and> l \<in> fst ` set (fst ?res))"
        by auto
      then show ?thesis
      proof cases
        case 1
        from match_requested_translated [OF Translated]
        have "q \<in> set requested" "translated_for q lang" "q \<notin> set automatic" by simp_all
        moreover have "lang \<in> fst ` set (fst ?res)"
          using filter_captions_keeps [of "AList.update lang subs new" requested automatic rest
              "insert q skip"]
          by (auto simp: dom_update)
        ultimately show ?thesis using 1 eq by auto
      next
        case 2
        then show ?thesis by simp
      next
        case 3
        then show ?thesis using eq by auto
      qed
    qed
  qed
qed

lemma filter_captions_snoc:
  "snd (filter_captions requested automatic (xs @ [(l, v)]) skip new) =
     (let before = snd (filter_captions requested automatic xs skip new)
      in if l \<in> before then before
         else case match_requested requested l before automatic of
                Translated q \<Rightarrow> insert q before
              | _ \<Rightarrow> before)"
  by (simp add: filter_captions_append Let_def split: verdict.splits)

lemma filter_captions_skip_iff:
  "(r \<in> snd (filter_captions requested automatic xs skip new)) =
     (r \<in> skip
      \<or> (\<exists>e1 l v e2. xs = e1 @ (l, v) # e2
            \<and> l \<notin> snd (filter_captions requested automatic e1 skip new)
            \<and> match_requested requested l
                 (snd (filter_captions requested automatic e1 skip new)) automatic
                = Translated r))"
proof (induction xs rule: rev_induct)
  case Nil
  show ?case by simp
next
  case (snoc x xs)
  obtain l v where x: "x = (l, v)" by (cases x)
  define S where "S = snd (filter_captions requested automatic xs skip new)"
  define P where "P = (\<lambda>ys. \<exists>e1 l v e2. ys = e1 @ (l, v) # e2
            \<and> l \<notin> snd (filter_captions requested automatic e1 skip new)
            \<and> match_requested requested l
                 (snd (filter_captions requested automatic e1 skip new)) automatic
                = Translated r)"
  have IH: "(r \<in> S) = (r \<in> skip \<or> P xs)"
    using snoc.IH by (simp add: S_def P_def)
  have split: "P (xs @ [x]) =
      (P xs \<or> (l \<notin> S \<and> match_requested requested l S automatic = Translated r))"
  proof
    assume "P (xs @ [x])"
    then obtain e1 l' v' e2 where d: "xs @ [x] = e1 @ (l', v') # e2"
      and n: "l' \<notin> snd (filter_captions requested automatic e1 skip new)"
      and m: "match_requested requested l'
           (snd (filter_captions requested automatic e1 skip new)) automatic = Translated r"
      unfolding P_def by blast
    show "P xs \<or> (l \<notin> S \<and> match_requested requested l S automatic = Translated r)"
    proof (cases e2 rule: rev_cases)
      case Nil
      with d x have "e1 = xs" "l' = l" by simp_all
      with n m show ?thesis by (simp add: S_def)
    next
      case (snoc e2' y)
      with d have "xs = e1 @ (l', v') # e2'" by simp
      with n m have "P xs" unfolding P_def by blast
      then show ?thesis by simp
    qed
  next
    assume "P xs \<or> (l \<notin> S \<and> match_requested requested l S automatic = Translated r)"
    then show "P (xs @ [x])"
    proof
      assume "P xs"
      then obtain e1 l' v' e2 where d: "xs = e1 @ (l', v') # e2"
        and n: "l' \<notin> snd (filter_captions requested automatic e1 skip new)"
        and m: "match_requested requested l'
             (snd (filter_captions requested automatic e1 skip new)) automatic = Translated r"
        unfolding P_def by blast
      from d have "xs @ [x] = e1 @ (l', v') # (e2 @ [x])" by simp
      with n m show ?thesis unfolding P_def by blast
    next
      assume "l \<notin> S \<and> match_requested requested l S automatic = Translated r"
      moreover have "xs @ [x] = xs @ (l, v) # []" by (simp add: x)
      ultimately show ?thesis unfolding P_def S_def by blast
    qed
  qed
  have step: "snd (filter_captions requested automatic (xs @ [x]) skip new) =
      (if l \<in> S then S
       else case match_requested requested l S automatic of
              Translated q \<Rightarrow> insert q S
            | _ \<Rightarrow> S)"
    unfolding x S_def by (simp only: filter_captions_snoc Let_def)
  have A: "(r \<in> snd (filter_captions requested automatic (xs @ [x]) skip new))
      = (r \<in> S \<or> (l \<notin> S \<and> match_requested requested l S automatic = Translated r))"
  proof (cases "l \<in> S")
    case True
    then show ?thesis by (simp add: step)
  next
    case False
    then show ?thesis
      by (cases "match_requested requested l S automatic") (auto simp: step)
  qed
  have "(r \<in> snd (filter_captions requested automatic (xs @ [x]) skip new))
      = (r \<in> skip \<or> P (xs @ [x]))"
    by (simp only: A split IH) blast
  then show ?case by (simp only: P_def)
qed

lemma match_requested_first:
  "(match_requested requested lang skip automatic = Translated r) =
     (\<exists>pre post. requested = pre @ r # post
        \<and> (\<forall>p\<in>set pre. p \<noteq> ''all'' \<and> p \<noteq> lang
              \<and> \<not> (translated_for p lang \<and> p \<notin> skip \<and> p \<notin> set automatic))
        \<and> r \<noteq> ''all'' \<and> r \<noteq> lang
        \<and> translated_for r lang \<and> r \<notin> skip \<and> r \<notin> set automatic)"
proof (induction requested)
  case Nil
  show ?case by simp
next
  case (Cons q qs)
  let ?acc = "\<lambda>p. p \<noteq> ''all'' \<and> p \<noteq> lang
      \<and> \<not> (translated_for p lang \<and> p \<notin> skip \<and> p \<notin> set automatic)"
  let ?hit = "r \<noteq> ''all'' \<and> r \<noteq> lang
      \<and> translated_for r lang \<and> r \<notin> skip \<and> r \<notin> set automatic"
  have dec: "(\<exists>pre post. q # qs = pre @ r # post \<and> (\<forall>p\<in>set pre. ?acc p) \<and> ?hit)
      = ((q = r \<and> ?hit)
         \<or> (?acc q \<and> (\<exists>pre post. qs = pre @ r # post \<and> (\<forall>p\<in>set pre. ?acc p) \<and> ?hit)))"
  proof
    assume "\<exists>pre post. q # qs = pre @ r # post \<and> (\<forall>p\<in>set pre. ?acc p) \<and> ?hit"
    then obtain pre post where d: "q # qs = pre @ r # post"
      and a: "\<forall>p\<in>set pre. ?acc p" and h: ?hit by blast
    show "(q = r \<and> ?hit)
         \<or> (?acc q \<and> (\<exists>pre post. qs = pre @ r # post \<and> (\<forall>p\<in>set pre. ?acc p) \<and> ?hit))"
    proof (cases pre)
      case Nil
      with d h show ?thesis by simp
    next
      case (Cons p ps)
      with d have "q = p" "qs = ps @ r # post" by simp_all
      with a Cons h show ?thesis by auto
    qed
  next
    assume "(q = r \<and> ?hit)
         \<or> (?acc q \<and> (\<exists>pre post. qs = pre @ r # post \<and> (\<forall>p\<in>set pre. ?acc p) \<and> ?hit))"
    then show "\<exists>pre post. q # qs = pre @ r # post \<and> (\<forall>p\<in>set pre. ?acc p) \<and> ?hit"
    proof
      assume "q = r \<and> ?hit"
      then have "q # qs = [] @ r # qs \<and> (\<forall>p\<in>set []. ?acc p) \<and> ?hit" by simp
      then show ?thesis by blast
    next
      assume "?acc q \<and> (\<exists>pre post. qs = pre @ r # post \<and> (\<forall>p\<in>set pre. ?acc p) \<and> ?hit)"
      then obtain pre post where "qs = pre @ r # post" "\<forall>p\<in>set pre. ?acc p" ?hit "?acc q"
        by blast
      then have "q # qs = (q # pre) @ r # post \<and> (\<forall>p\<in>set (q # pre). ?acc p) \<and> ?hit"
        by simp
      then show ?thesis by blast
    qed
  qed
  show ?case
    unfolding dec Cons.IH [symmetric] by auto
qed

lemma match_requested_accepts:
  "(match_requested requested lang skip automatic = Translated r)
     = accepts_translated requested lang skip automatic r"
  unfolding accepts_translated_def by (rule match_requested_first)

lemma consumed_iff:
  assumes "fst ` set earlier \<subseteq> set K"
  shows "(r \<in> snd (filter_captions requested K earlier ordinary []) - ordinary) =
     (\<exists>e1 l v e2. earlier = e1 @ (l, v) # e2 \<and> l \<notin> ordinary
        \<and> match_requested requested l (snd (filter_captions requested K e1 ordinary [])) K
            = Translated r)"
proof
  assume "r \<in> snd (filter_captions requested K earlier ordinary []) - ordinary"
  then have "r \<in> snd (filter_captions requested K earlier ordinary [])" and "r \<notin> ordinary"
    by simp_all
  then obtain e1 l v e2 where d: "earlier = e1 @ (l, v) # e2"
    and n: "l \<notin> snd (filter_captions requested K e1 ordinary [])"
    and m: "match_requested requested l (snd (filter_captions requested K e1 ordinary [])) K
        = Translated r"
    unfolding filter_captions_skip_iff [of r requested K earlier ordinary "[]"] by blast
  from n filter_captions_skip_mono [of ordinary requested K e1 "[]"] have "l \<notin> ordinary"
    by blast
  with d m show "\<exists>e1 l v e2. earlier = e1 @ (l, v) # e2 \<and> l \<notin> ordinary
        \<and> match_requested requested l (snd (filter_captions requested K e1 ordinary [])) K
            = Translated r" by blast
next
  assume "\<exists>e1 l v e2. earlier = e1 @ (l, v) # e2 \<and> l \<notin> ordinary
        \<and> match_requested requested l (snd (filter_captions requested K e1 ordinary [])) K
            = Translated r"
  then obtain e1 l v e2 where d: "earlier = e1 @ (l, v) # e2" and o: "l \<notin> ordinary"
    and m: "match_requested requested l (snd (filter_captions requested K e1 ordinary [])) K
        = Translated r" by blast
  from d assms have "l \<in> set K" by auto
  with filter_captions_skip_source [of l requested K e1 ordinary "[]"] o
  have n: "l \<notin> snd (filter_captions requested K e1 ordinary [])" by blast
  from d n m have "r \<in> snd (filter_captions requested K earlier ordinary [])"
    unfolding filter_captions_skip_iff [of r requested K earlier ordinary "[]"] by blast
  moreover from match_requested_translated [OF m]
    filter_captions_skip_mono [of ordinary requested K e1 "[]"]
  have "r \<notin> ordinary" by blast
  ultimately show "r \<in> snd (filter_captions requested K earlier ordinary []) - ordinary"
    by simp
qed

text \<open>
  Claim C9, as the code has it. Let the automatic captions of an item be the tracks
  \<open>earlier\<close>, then the track \<open>lang\<close>, then the tracks \<open>later\<close>, with distinct language
  tags, and let the requested tags be listed in the iteration order of their set. A
  requested tag is consumed when the filter has added it to \<open>skip_captions\<close> while it
  went through \<open>earlier\<close>. The track \<open>lang\<close> is kept exactly when it has no ordinary
  subtitle track and either a requested tag is \<open>all\<close> or \<open>lang\<close> itself, or \<open>lang\<close>
  starts with a requested tag followed by a hyphen, where this tag has no automatic
  caption track, no ordinary subtitle track and is not consumed. A tag is consumed
  exactly when it accepted an earlier track without ordinary subtitles as a translated
  variant, being the first requested tag to accept that track; then that track starts
  with the tag and was kept. When a tag accepts the track \<open>lang\<close> as a translated
  variant, it accepts no later track as one.
\<close>

theorem caption_reconciliation:
  assumes "distinct (map fst automatic_captions)"
    and "automatic_captions = earlier @ (lang, subs) # later"
  shows "((lang, subs) \<in> set (reconcile_captions requested subtitles automatic_captions))
           = (lang \<notin> fst ` set subtitles
              \<and> ((\<exists>r\<in>set requested. r = ''all'' \<or> r = lang)
                 \<or> (\<exists>r\<in>set requested. translated_for r lang
                       \<and> r \<notin> fst ` set automatic_captions
                       \<and> r \<notin> fst ` set subtitles
                       \<and> r \<notin> skip_before requested subtitles automatic_captions earlier
                              - fst ` set subtitles)))
       \<and> (\<forall>r. (r \<in> skip_before requested subtitles automatic_captions earlier
                     - fst ` set subtitles)
              = (\<exists>e1 l v e2. earlier = e1 @ (l, v) # e2 \<and> l \<notin> fst ` set subtitles
                   \<and> accepts_translated requested l
                        (skip_before requested subtitles automatic_captions e1)
                        (map fst automatic_captions) r))
       \<and> (\<forall>r. r \<in> skip_before requested subtitles automatic_captions earlier
                    - fst ` set subtitles \<longrightarrow>
              r \<in> set requested
              \<and> (\<exists>l\<in>fst ` set earlier. translated_for r l
                    \<and> l \<in> fst ` set (reconcile_captions requested subtitles automatic_captions)))
       \<and> (\<forall>r. lang \<notin> fst ` set subtitles
              \<and> accepts_translated requested lang
                    (skip_before requested subtitles automatic_captions earlier)
                    (map fst automatic_captions) r \<longrightarrow>
              (\<forall>between lang2 subs2 rest. later = between @ (lang2, subs2) # rest \<longrightarrow>
                 \<not> accepts_translated requested lang2
                     (skip_before requested subtitles automatic_captions
                        (earlier @ (lang, subs) # between))
                     (map fst automatic_captions) r))"
proof -
  define K where "K = map fst automatic_captions"
  define ordinary where "ordinary = set (map fst subtitles)"
  define skipB where "skipB = snd (filter_captions requested K earlier ordinary [])"
  define newB where "newB = fst (filter_captions requested K earlier ordinary [])"
  define res where "res = filter_captions requested K ((lang, subs) # later) skipB newB"
  have ord: "fst ` set subtitles = ordinary" by (simp add: ordinary_def)
  have sb: "skip_before requested subtitles automatic_captions earlier = skipB"
    by (simp add: skip_before_def skipB_def K_def ordinary_def)
  have whole: "filter_captions requested K automatic_captions ordinary [] = res"
    unfolding assms(2) res_def skipB_def newB_def by (rule filter_captions_append)
  have rc: "reconcile_captions requested subtitles automatic_captions = fst res"
    using whole by (simp add: reconcile_captions_def K_def ordinary_def)
  have langK: "lang \<in> set K" by (simp add: K_def assms(2))
  have fresh: "lang \<notin> fst ` set earlier" "lang \<notin> fst ` set later"
    using assms by auto
  have newB_sub: "set newB \<subseteq> set earlier"
    using filter_captions_pairs [of requested K earlier ordinary "[]"] by (simp add: newB_def)
  have skipB_src: "r \<in> ordinary \<or> (r \<in> set requested \<and> r \<notin> set K
        \<and> (\<exists>l\<in>fst ` set earlier. translated_for r l \<and> l \<in> fst ` set newB))"
    if "r \<in> skipB" for r
    using filter_captions_skip_source [of r requested K earlier ordinary "[]"] that
    by (simp add: skipB_def newB_def)
  have lang_skip: "(lang \<in> skipB) = (lang \<in> ordinary)"
    using skipB_src [of lang] langK filter_captions_skip_mono [of ordinary requested K earlier "[]"]
    by (auto simp: skipB_def)
  have not_in: "(lang, subs) \<notin> set newB \<union> set later"
    using fresh newB_sub by force
  have kept: "((lang, subs) \<in> set (fst res))
      = (lang \<notin> ordinary \<and> match_requested requested lang skipB K \<noteq> NotRequested)"
  proof (cases "lang \<in> skipB")
    case True
    then have "res = filter_captions requested K later skipB newB" by (simp add: res_def)
    with filter_captions_pairs [of requested K later skipB newB] not_in
    have "(lang, subs) \<notin> set (fst res)" by auto
    with True lang_skip show ?thesis by simp
  next
    case False
    show ?thesis
    proof (cases "match_requested requested lang skipB K")
      case NotRequested
      with False have "res = filter_captions requested K later skipB newB"
        by (simp add: res_def)
      with filter_captions_pairs [of requested K later skipB newB] not_in
      have "(lang, subs) \<notin> set (fst res)" by auto
      with NotRequested show ?thesis by simp
    next
      case Requested
      with False have "res = filter_captions requested K later skipB
          (AList.update lang subs newB)" by (simp add: res_def)
      with filter_captions_stays [OF update_same [of lang subs newB] fresh(2),
          where requested = requested and automatic = K and skip = skipB]
      have "(lang, subs) \<in> set (fst res)" by simp
      with Requested False lang_skip show ?thesis by simp
    next
      case (Translated q)
      with False have "res = filter_captions requested K later (insert q skipB)
          (AList.update lang subs newB)" by (simp add: res_def)
      with filter_captions_stays [OF update_same [of lang subs newB] fresh(2),
          where requested = requested and automatic = K and skip = "insert q skipB"]
      have "(lang, subs) \<in> set (fst res)" by simp
      with Translated False lang_skip show ?thesis by simp
    qed
  qed
  have mono: "ordinary \<subseteq> skipB"
    using filter_captions_skip_mono [of ordinary requested K earlier "[]"]
    by (simp add: skipB_def)
  have part1: "((lang, subs) \<in> set (fst res))
      = (lang \<notin> ordinary
         \<and> ((\<exists>r\<in>set requested. r = ''all'' \<or> r = lang)
            \<or> (\<exists>r\<in>set requested. translated_for r lang \<and> r \<notin> set K \<and> r \<notin> ordinary
                  \<and> r \<notin> skipB - ordinary)))"
    unfolding kept match_requested_kept using mono by auto
  have newB_res: "fst ` set newB \<subseteq> fst ` set (fst res)"
  proof -
    have "fst ` set newB \<subseteq> fst ` set (fst (filter_captions requested K later skipB newB))"
      by (rule filter_captions_keeps)
    moreover have "fst ` set (AList.update lang subs newB)
        \<subseteq> fst ` set (fst (filter_captions requested K later sk (AList.update lang subs newB)))"
      for sk by (rule filter_captions_keeps)
    then have "fst ` set newB
        \<subseteq> fst ` set (fst (filter_captions requested K later sk (AList.update lang subs newB)))"
      for sk by (auto simp: dom_update)
    ultimately show ?thesis
      unfolding res_def by (auto split: verdict.splits)
  qed
  have part2: "r \<in> set requested
      \<and> (\<exists>l\<in>fst ` set earlier. translated_for r l \<and> l \<in> fst ` set (fst res))"
    if "r \<in> skipB - ordinary" for r
  proof -
    from skipB_src [of r] that obtain l
      where "r \<in> set requested" and "l \<in> fst ` set earlier" and "translated_for r l"
        and "l \<in> fst ` set newB" by blast
    with newB_res show ?thesis by blast
  qed
  have part3: "match_requested requested lang2
      (skip_before requested subtitles automatic_captions (earlier @ (lang, subs) # between)) K
      \<noteq> Translated r"
    if l: "lang \<notin> ordinary" and m: "match_requested requested lang skipB K = Translated r"
    for r between lang2
  proof -
    have "skip_before requested subtitles automatic_captions (earlier @ (lang, subs) # between)
        = snd (filter_captions requested K ((lang, subs) # between) skipB newB)"
      unfolding skip_before_def skipB_def newB_def K_def ordinary_def
      by (simp add: filter_captions_append)
    also have "\<dots> = snd (filter_captions requested K between (insert r skipB)
        (AList.update lang subs newB))"
      using l m lang_skip by simp
    finally have "r \<in> skip_before requested subtitles automatic_captions
        (earlier @ (lang, subs) # between)"
      using filter_captions_skip_mono [of "insert r skipB" requested K between
          "AList.update lang subs newB"]
      by auto
    then show ?thesis by (rule match_requested_satisfied)
  qed
  have sub: "fst ` set earlier \<subseteq> set K" by (auto simp: K_def assms(2))
  have part2': "(r \<in> skipB - ordinary)
      = (\<exists>e1 l v e2. earlier = e1 @ (l, v) # e2 \<and> l \<notin> ordinary
           \<and> match_requested requested l
                (skip_before requested subtitles automatic_captions e1) K = Translated r)"
    for r
    using consumed_iff [OF sub, of r requested ordinary]
    by (simp add: skipB_def skip_before_def K_def ordinary_def)
  have c1: "((lang, subs) \<in> set (reconcile_captions requested subtitles automatic_captions))
           = (lang \<notin> fst ` set subtitles
              \<and> ((\<exists>r\<in>set requested. r = ''all'' \<or> r = lang)
                 \<or> (\<exists>r\<in>set requested. translated_for r lang
                       \<and> r \<notin> fst ` set automatic_captions
                       \<and> r \<notin> fst ` set subtitles
                       \<and> r \<notin> skip_before requested subtitles automatic_captions earlier
                              - fst ` set subtitles)))"
    unfolding rc sb ord using part1 by (simp add: K_def)
  have c2: "(r \<in> skip_before requested subtitles automatic_captions earlier
                     - fst ` set subtitles)
              = (\<exists>e1 l v e2. earlier = e1 @ (l, v) # e2 \<and> l \<notin> fst ` set subtitles
                   \<and> accepts_translated requested l
                        (skip_before requested subtitles automatic_captions e1)
                        (map fst automatic_captions) r)" for r
    unfolding match_requested_accepts [symmetric] sb ord K_def [symmetric] by (rule part2')
  have c3: "r \<in> set requested
              \<and> (\<exists>l\<in>fst ` set earlier. translated_for r l
                    \<and> l \<in> fst ` set (reconcile_captions requested subtitles automatic_captions))"
    if "r \<in> skip_before requested subtitles automatic_captions earlier - fst ` set subtitles"
    for r
    using part2 [of r] that unfolding rc sb ord by simp
  have c4: "\<not> accepts_translated requested lang2
                     (skip_before requested subtitles automatic_captions
                        (earlier @ (lang, subs) # between))
                     (map fst automatic_captions) r"
    if "lang \<notin> fst ` set subtitles
        \<and> accepts_translated requested lang
              (skip_before requested subtitles automatic_captions earlier)
              (map fst automatic_captions) r"
    for r between lang2
    using part3 [of r lang2 between] that
    unfolding match_requested_accepts [symmetric] sb ord K_def [symmetric] by simp
  show ?thesis
    using c1 c2 c3 c4 by blast
qed

theorem caption_reconciliation_witness:
  "distinct (map fst caption_example)
   \<and> caption_example = [(''en-US'', 1)] @ (''en-GB'', 2) # [(''de'', 3)]
   \<and> skip_before [''en''] [(''de'', 0 :: nat)] caption_example [(''en-US'', 1)] = {''de'', ''en''}
   \<and> (''en-GB'', 2) \<notin> set (reconcile_captions [''en''] [(''de'', 0 :: nat)] caption_example)
   \<and> accepts_translated [''en''] ''en-US''
        (skip_before [''en''] [(''de'', 0 :: nat)] caption_example []) (map fst caption_example)
        ''en''
   \<and> \<not> accepts_translated [''en''] ''en-GB''
        (skip_before [''en''] [(''de'', 0 :: nat)] caption_example ([] @ (''en-US'', 1) # []))
        (map fst caption_example) ''en''"
proof -
  have d: "distinct (map fst caption_example)" by (simp add: caption_example_def)
  have e: "caption_example = [(''en-US'', 1)] @ (''en-GB'', 2) # [(''de'', 3)]"
    by (simp add: caption_example_def)
  have e0: "caption_example = [] @ (''en-US'', 1) # [(''en-GB'', 2), (''de'', 3)]"
    by (simp add: caption_example_def)
  have s: "skip_before [''en''] [(''de'', 0 :: nat)] caption_example [(''en-US'', 1)]
      = {''de'', ''en''}"
    by (auto simp: skip_before_def caption_example_def translated_for_def)
  have s0: "skip_before [''en''] [(''de'', 0 :: nat)] caption_example [] = {''de''}"
    by (simp add: skip_before_def)
  have a: "accepts_translated [''en''] ''en-US''
      (skip_before [''en''] [(''de'', 0 :: nat)] caption_example []) (map fst caption_example)
      ''en''"
    unfolding match_requested_accepts [symmetric] s0
    by (simp add: caption_example_def translated_for_def)
  from caption_reconciliation [OF d e, of "[''en'']" "[(''de'', 0 :: nat)]"] s
  have 1: "(''en-GB'', 2) \<notin> set (reconcile_captions [''en''] [(''de'', 0 :: nat)] caption_example)"
    by simp
  from caption_reconciliation [OF d e0, of "[''en'']" "[(''de'', 0 :: nat)]"] a
  have 2: "\<not> accepts_translated [''en''] ''en-GB''
      (skip_before [''en''] [(''de'', 0 :: nat)] caption_example ([] @ (''en-US'', 1) # []))
      (map fst caption_example) ''en''"
    by auto
  from d e s 1 a 2 show ?thesis by blast
qed

text \<open>
  With the tags \<open>en-US\<close> and \<open>en\<close> requested and the automatic captions \<open>en-US\<close>, \<open>en-GB\<close>
  and \<open>de\<close>, the result depends on the iteration order of the requested set. When
  \<open>en-US\<close> comes first, the track \<open>en-US\<close> is kept as requested and consumes nothing, so
  \<open>en-GB\<close> is kept for \<open>en\<close>: two tracks of the form \<open>en-YY\<close> are kept, and \<open>en-GB\<close> is
  kept although the earlier translated variant \<open>en-US\<close> was kept. When \<open>en\<close> comes first,
  only \<open>en-US\<close> is kept.
\<close>

theorem caption_order_counterexample:
  "reconcile_captions [''en-US'', ''en''] ([] :: (string \<times> nat) list) caption_example
     = [(''en-US'', 1), (''en-GB'', 2)]
   \<and> reconcile_captions [''en'', ''en-US''] ([] :: (string \<times> nat) list) caption_example
     = [(''en-US'', 1)]
   \<and> spec_captions [''en-US'', ''en''] {} (map fst caption_example) caption_example []
     = [(''en-US'', 1)]
   \<and> length (filter (\<lambda>track. translated_for ''en'' (fst track))
        (reconcile_captions [''en-US'', ''en''] ([] :: (string \<times> nat) list) caption_example)) = 2"
  by (simp add: reconcile_captions_def caption_example_def translated_for_def)

subsection \<open>Downloads that exist already: \<^verbatim>\<open>_find_existing_download\<close> and the item loop\<close>









































end
